theory Spec2Isabelle
  imports Main
begin

section \<open>Objects of the session provider and of the page\<close>

text \<open>
  The module \<^verbatim>\<open>joinroom.js\<close> keeps two module variables, reads and writes the page
  (the \<^verbatim>\<open>div#participants\<close> element, the active \<^verbatim>\<open>video\<close> element, \<^verbatim>\<open>window.room\<close>)
  and registers callbacks on objects owned by the video library. Objects are compared by
  reference in the source (\<^verbatim>\<open>===\<close>); here every object carries its reference, so that
  equality of values is equality of references.

  A media track is an audio or a video track: \<^verbatim>\<open>attachTrack\<close> looks at no other kind,
  and only these two have the \<^verbatim>\<open>attach\<close> and \<^verbatim>\<open>detach\<close> methods the module calls.

  The module splices the identity of a participant, as it is, into the markup of a
  container (\<^verbatim>\<open><div class="participant" data-identity="...">\<close>) and into selectors
  (\<^verbatim>\<open>[data-identity="..."]\<close>). What the HTML parser and the selector engine of jQuery
  make of a spliced identity is theirs, and is taken as given with the platform.
\<close>

type_synonym rid = nat
type_synonym pub = nat

datatype kind = Audio | Video

datatype track = Track (track_ref: nat) (kind: kind)

datatype participant = Participant (participant_ref: nat) (identity: string)

text \<open>
  A Room as the module reads it: \<^verbatim>\<open>room.localParticipant\<close>, the tracks of
  \<^verbatim>\<open>room.localParticipant.videoTracks\<close> in iteration order, \<^verbatim>\<open>room.dominantSpeaker\<close>
  (null is \<open>None\<close>) and \<^verbatim>\<open>room.participants\<close>, each remote participant with the
  publications of its \<^verbatim>\<open>tracks\<close> collection.
\<close>

record room =
  localParticipant :: participant
  videoTracks :: "track list"
  dominantSpeaker :: "participant option"
  participants :: "(participant \<times> pub list) list"

text \<open>
  The children of \<^verbatim>\<open>div#participants\<close>: an \<^verbatim>\<open>audio\<close> element bound to a track, or a
  \<^verbatim>\<open>div.participant\<close> container with its \<^verbatim>\<open>data-identity\<close> attribute, the participant
  its click handler closes over, its two style classes and its \<^verbatim>\<open>video\<close> child (bound
  to a track; \<open>None\<close> once the child has been removed).
\<close>

record container =
  data_identity :: string
  owner :: participant
  cls_active :: bool
  cls_pinned :: bool
  video :: "track option"

datatype node = AudioElement track | ParticipantDiv container

text \<open>
  The calls the module makes on objects it does not own, and its writes to the page's
  two global slots, newest first.
\<close>

datatype call =
    Attach track
  | Detach track
  | Disable track
  | Enable track
  | ActiveVideoSrc "track option"
  | WindowRoom "rid option"
  | Resolve rid

datatype js_error = TypeError | SelectorError | ConnectError | CaptureError

text \<open>
  A handler either returns or throws; what it wrote before throwing stays written, so
  both outcomes carry the state.
\<close>

datatype 'a res = Done 'a | Raised js_error 'a

fun state_of :: "'a res \<Rightarrow> 'a" where
  "state_of (Done s) = s"
| "state_of (Raised e s) = s"

fun raised :: "'a res \<Rightarrow> bool" where
  "raised (Done s) = False"
| "raised (Raised e s) = True"

text \<open>
  What \<^verbatim>\<open>./browser\<close> and the page report about the platform, and what the page does
  with a spliced identity \<open>i\<close>: \<open>attribute i\<close> is the value of \<^verbatim>\<open>data-identity\<close> on
  the \<^verbatim>\<open>div\<close> that the markup builds; \<open>selector i\<close> is \<open>None\<close> when jQuery rejects the
  selector and throws, and \<open>Some v\<close> when the selector matches the elements whose
  \<^verbatim>\<open>data-identity\<close> is \<open>v\<close>. An identity whose markup builds more than the one empty
  \<^verbatim>\<open>div\<close>, or whose selector reads as anything but one test of the attribute, is
  beyond these two fields.
\<close>

record browser =
  isMobile :: bool
  name :: string
  has_onbeforeunload :: bool
  has_onpagehide :: bool
  has_onvisibilitychange :: bool
  attribute :: "string \<Rightarrow> string"
  selector :: "string \<Rightarrow> string option"

record state =
  activeParticipant :: "participant option"
  isActiveParticipantPinned :: bool
  window_room :: "rid option"
  participants_children :: "node list"
  activeVideo_srcObject :: "track option"
  platform :: browser
  rooms :: "rid \<Rightarrow> room option"
  subscriptions :: "(pub \<times> track) list"
  on_trackPublished :: "participant list"
  on_subscription :: "(pub \<times> participant) list"
  on_participantConnected :: "rid list"
  on_participantDisconnected :: "rid list"
  on_dominantSpeakerChanged :: "rid list"
  on_leave_click :: "rid list"
  on_beforeunload :: "rid list"
  on_pagehide :: "rid list"
  on_visibilitychange :: "track list"
  once_disconnected :: "(rid \<times> track) list"
  calls :: "call list"

text \<open>The module as loaded: no active participant, nothing pinned, an empty page.\<close>

definition initial :: "browser \<Rightarrow> state" where
  "initial b =
     \<lparr> activeParticipant = None, isActiveParticipantPinned = False, window_room = None,
       participants_children = [], activeVideo_srcObject = None, platform = b,
       rooms = (\<lambda>r. None), subscriptions = [],
       on_trackPublished = [], on_subscription = [],
       on_participantConnected = [], on_participantDisconnected = [],
       on_dominantSpeakerChanged = [], on_leave_click = [], on_beforeunload = [],
       on_pagehide = [], on_visibilitychange = [], once_disconnected = [], calls = [] \<rparr>"

section \<open>The active participant\<close>

text \<open>
  \<^verbatim>\<open>$(`[data-identity="..."]`, $participants)\<close>, once jQuery has read the selector as
  the test for the value \<open>v\<close>, selects every container with that value of the
  attribute; \<open>with_identity\<close> applies a change to each of them.
\<close>

fun on_container :: "string \<Rightarrow> (container \<Rightarrow> container) \<Rightarrow> node \<Rightarrow> node" where
  "on_container v f (AudioElement t) = AudioElement t"
| "on_container v f (ParticipantDiv c) =
     (if data_identity c = v then ParticipantDiv (f c) else ParticipantDiv c)"

definition with_identity :: "string \<Rightarrow> (container \<Rightarrow> container) \<Rightarrow> node list \<Rightarrow> node list" where
  "with_identity v f ns = map (on_container v f) ns"

text \<open>
  \<^verbatim>\<open>$(`[data-identity="..."] > video`, $participants).get(0)\<close>: the first \<^verbatim>\<open>video\<close>
  child of a container with that value of the attribute, in document order; \<open>None\<close>
  is \<^verbatim>\<open>undefined\<close>.
\<close>

fun first_video :: "string \<Rightarrow> node list \<Rightarrow> track option" where
  "first_video v [] = None"
| "first_video v (AudioElement t # ns) = first_video v ns"
| "first_video v (ParticipantDiv c # ns) =
     (if data_identity c = v
      then (case video c of Some t \<Rightarrow> Some t | None \<Rightarrow> first_video v ns)
      else first_video v ns)"

text \<open>
  The first lines of \<^verbatim>\<open>setActiveParticipant\<close>: with an active participant, its
  containers lose the two classes. \<open>None\<close>: jQuery rejected the selector spliced from
  the identity of that participant.
\<close>

definition demoted :: "state \<Rightarrow> node list option" where
  "demoted s =
     (case activeParticipant s of
        None \<Rightarrow> Some (participants_children s)
      | Some a \<Rightarrow>
          (case selector (platform s) (identity a) of
             None \<Rightarrow> None
           | Some v \<Rightarrow>
               Some (with_identity v (\<lambda>c. c\<lparr>cls_active := False, cls_pinned := False\<rparr>)
                      (participants_children s))))"

text \<open>
  \<^verbatim>\<open>setActiveParticipant\<close>. A rejected selector throws where it is built: for the
  previous active participant before the module variable is assigned, for the new one
  after. Reading \<^verbatim>\<open>srcObject\<close> of \<^verbatim>\<open>undefined\<close> throws after the variable and the
  classes have been written.
\<close>

definition setActiveParticipant :: "participant \<Rightarrow> state \<Rightarrow> state res" where
  "setActiveParticipant p s =
     (case demoted s of
        None \<Rightarrow> Raised SelectorError s
      | Some d1 \<Rightarrow>
          (let s1 = s\<lparr>activeParticipant := Some p, participants_children := d1\<rparr>
           in case selector (platform s) (identity p) of
                None \<Rightarrow> Raised SelectorError s1
              | Some w \<Rightarrow>
                  (let d2 = with_identity w
                              (\<lambda>c. c\<lparr>cls_active := True,
                                      cls_pinned := (cls_pinned c \<or> isActiveParticipantPinned s)\<rparr>)
                              d1;
                       s2 = s1\<lparr>participants_children := d2\<rparr>
                   in case first_video w d2 of
                        None \<Rightarrow> Raised TypeError s2
                      | Some t \<Rightarrow>
                          Done (s2\<lparr>activeVideo_srcObject := Some t,
                                   calls := ActiveVideoSrc (Some t) # calls s2\<rparr>))))"

text \<open>
  jQuery accepts the selector spliced from the identity of \<open>p\<close>; and the one spliced
  from the identity of the active participant, when there is one.
\<close>

definition accepts :: "state \<Rightarrow> participant \<Rightarrow> bool" where
  "accepts s p = (selector (platform s) (identity p) \<noteq> None)"

definition accepts_active :: "state \<Rightarrow> bool" where
  "accepts_active s = (case activeParticipant s of None \<Rightarrow> True | Some a \<Rightarrow> accepts s a)"

text \<open>\<^verbatim>\<open>dominantSpeaker || localParticipant\<close>: a participant object is never falsy.\<close>

definition speaker_or_local :: "room \<Rightarrow> participant" where
  "speaker_or_local r =
     (case dominantSpeaker r of Some d \<Rightarrow> d | None \<Rightarrow> localParticipant r)"

text \<open>
  \<^verbatim>\<open>setCurrentActiveParticipant\<close>, given what the caller holds in place of a room:
  destructuring \<^verbatim>\<open>null\<close> or \<^verbatim>\<open>undefined\<close> throws.
\<close>

definition setCurrentActiveParticipant :: "rid option \<Rightarrow> state \<Rightarrow> state res" where
  "setCurrentActiveParticipant ro s =
     (case ro of
        None \<Rightarrow> Raised TypeError s
      | Some r \<Rightarrow>
          (case rooms s r of
             None \<Rightarrow> Raised TypeError s
           | Some rm \<Rightarrow> setActiveParticipant (speaker_or_local rm) s))"

section \<open>Attaching and detaching tracks\<close>

text \<open>
  \<^verbatim>\<open>track.attach()\<close> makes a new media element bound to the track. The width and
  opacity styles of the element, and the \<^verbatim>\<open>enabled\<close>/\<^verbatim>\<open>disabled\<close> handlers that only
  write the opacity, have no reader in the module and are left out. The container of
  a video track is built from markup with the identity spliced in: its attribute is
  what the page reads there.
\<close>

definition attachAudioTrack :: "track \<Rightarrow> state \<Rightarrow> state" where
  "attachAudioTrack t s =
     s\<lparr>participants_children := participants_children s @ [AudioElement t],
       calls := Attach t # calls s\<rparr>"

definition attachVideoTrack :: "track \<Rightarrow> participant \<Rightarrow> state \<Rightarrow> state" where
  "attachVideoTrack t p s =
     s\<lparr>participants_children := participants_children s @
         [ParticipantDiv \<lparr>data_identity = attribute (platform s) (identity p), owner = p,
                          cls_active = False, cls_pinned = False, video = Some t\<rparr>],
       calls := Attach t # calls s\<rparr>"

definition attachTrack :: "track \<Rightarrow> participant \<Rightarrow> state \<Rightarrow> state" where
  "attachTrack t p s =
     (case kind t of Audio \<Rightarrow> attachAudioTrack t s | Video \<Rightarrow> attachVideoTrack t p s)"

text \<open>
  \<^verbatim>\<open>track.detach()\<close> returns every element bound to the track, and each is removed
  from the page; a container keeps its place and loses its \<^verbatim>\<open>video\<close> child.
\<close>

fun remove_media :: "track \<Rightarrow> node list \<Rightarrow> node list" where
  "remove_media t [] = []"
| "remove_media t (AudioElement u # ns) =
     (if u = t then remove_media t ns else AudioElement u # remove_media t ns)"
| "remove_media t (ParticipantDiv c # ns) =
     ParticipantDiv (if video c = Some t then c\<lparr>video := None\<rparr> else c) # remove_media t ns"

fun remove_containers :: "string \<Rightarrow> node list \<Rightarrow> node list" where
  "remove_containers v [] = []"
| "remove_containers v (AudioElement u # ns) = AudioElement u # remove_containers v ns"
| "remove_containers v (ParticipantDiv c # ns) =
     (if data_identity c = v then remove_containers v ns
      else ParticipantDiv c # remove_containers v ns)"

text \<open>
  \<^verbatim>\<open>detachTrack\<close>. For a video track the containers of the participant are selected
  and removed after the elements of the track; a rejected selector throws there.
\<close>

definition detachTrack :: "track \<Rightarrow> participant \<Rightarrow> state \<Rightarrow> state res" where
  "detachTrack t p s =
     (let s1 = s\<lparr>participants_children := remove_media t (participants_children s),
                calls := Detach t # calls s\<rparr>
      in if kind t = Video
         then (case selector (platform s) (identity p) of
                 None \<Rightarrow> Raised SelectorError s1
               | Some v \<Rightarrow>
                   Done (s1\<lparr>participants_children :=
                              remove_containers v (participants_children s1)\<rparr>))
         else Done s1)"

section \<open>Pinning by a click on a container\<close>

text \<open>The click handler that \<^verbatim>\<open>attachVideoTrack\<close> puts on the container of \<open>p\<close>.\<close>

definition container_click :: "participant \<Rightarrow> state \<Rightarrow> state res" where
  "container_click p s =
     (if activeParticipant s = Some p \<and> isActiveParticipantPinned s
      then setCurrentActiveParticipant (window_room s) (s\<lparr>isActiveParticipantPinned := False\<rparr>)
      else setActiveParticipant p (s\<lparr>isActiveParticipantPinned := True\<rparr>))"

fun has_container :: "participant \<Rightarrow> node list \<Rightarrow> bool" where
  "has_container p [] = False"
| "has_container p (AudioElement u # ns) = has_container p ns"
| "has_container p (ParticipantDiv c # ns) = (owner c = p \<or> has_container p ns)"

section \<open>Publications and remote participants\<close>

text \<open>
  \<^verbatim>\<open>publication.track\<close> is the library's: \<open>subscriptions\<close> holds the publications
  that are subscribed, each with its track. \<^verbatim>\<open>trackPublished\<close> attaches the track of
  a publication that is subscribed already, and registers the two handlers.
\<close>

definition publication_track :: "state \<Rightarrow> pub \<Rightarrow> track option" where
  "publication_track s P = map_of (subscriptions s) P"

definition trackPublished :: "pub \<Rightarrow> participant \<Rightarrow> state \<Rightarrow> state" where
  "trackPublished P p s =
     (let s1 = (case publication_track s P of Some t \<Rightarrow> attachTrack t p s | None \<Rightarrow> s)
      in s1\<lparr>on_subscription := on_subscription s1 @ [(P, p)]\<rparr>)"

definition participantConnected :: "participant \<Rightarrow> pub list \<Rightarrow> state \<Rightarrow> state" where
  "participantConnected p ps s =
     (let s1 = fold (\<lambda>P. trackPublished P p) ps s
      in s1\<lparr>on_trackPublished := on_trackPublished s1 @ [p]\<rparr>)"

section \<open>Joining a room\<close>

text \<open>
  An emitter calls the listeners of a signal in the order of their registration; a
  listener that throws ends the round.
\<close>

fun emit :: "('a \<Rightarrow> state \<Rightarrow> state res) \<Rightarrow> 'a list \<Rightarrow> state \<Rightarrow> state res" where
  "emit h [] s = Done s"
| "emit h (x # xs) s =
     (case h x s of Done s' \<Rightarrow> emit h xs s' | Raised e s' \<Rightarrow> Raised e s')"

text \<open>The \<^verbatim>\<open>participantDisconnected\<close> and \<^verbatim>\<open>dominantSpeakerChanged\<close> handlers of room \<open>r\<close>.\<close>

definition participantDisconnected_handler :: "rid \<Rightarrow> participant \<Rightarrow> state \<Rightarrow> state res" where
  "participantDisconnected_handler r p s =
     (if activeParticipant s = Some p \<and> isActiveParticipantPinned s
      then setCurrentActiveParticipant (Some r) (s\<lparr>isActiveParticipantPinned := False\<rparr>)
      else Done s)"

definition dominantSpeakerChanged_handler :: "rid \<Rightarrow> state \<Rightarrow> state res" where
  "dominantSpeakerChanged_handler r s =
     (if \<not> isActiveParticipantPinned s then setCurrentActiveParticipant (Some r) s
      else Done s)"

text \<open>
  The \<^verbatim>\<open>disconnected\<close> handler of room \<open>r\<close>, with the local video track it closes
  over: it detaches the preview, clears the active video, clears \<^verbatim>\<open>window.room\<close>
  and resolves the promise.
\<close>

definition disconnected_handler :: "rid \<Rightarrow> track \<Rightarrow> state \<Rightarrow> state res" where
  "disconnected_handler r lt s =
     (case rooms s r of
        None \<Rightarrow> Raised TypeError s
      | Some rm \<Rightarrow>
          (case detachTrack lt (localParticipant rm) s of
             Raised e s1 \<Rightarrow> Raised e s1
           | Done s1 \<Rightarrow>
               (let s2 = s1\<lparr>activeVideo_srcObject := None,
                            calls := ActiveVideoSrc None # calls s1\<rparr>;
                    s3 = s2\<lparr>window_room := None, calls := WindowRoom None # calls s2\<rparr>
                in Done (s3\<lparr>calls := Resolve r # calls s3\<rparr>))))"

text \<open>
  The room signals \<^verbatim>\<open>disconnected\<close>: a listener registered with \<^verbatim>\<open>once\<close> is taken
  off and called. \<^verbatim>\<open>room.disconnect()\<close> ends the session, and the library then gives
  this signal.
\<close>

definition emit_disconnected :: "rid \<Rightarrow> state \<Rightarrow> state res" where
  "emit_disconnected r s =
     emit (\<lambda>(r', lt). disconnected_handler r' lt)
       (filter (\<lambda>(r', lt). r' = r) (once_disconnected s))
       (s\<lparr>once_disconnected := filter (\<lambda>(r', lt). r' \<noteq> r) (once_disconnected s)\<rparr>)"

definition room_disconnect :: "rid \<Rightarrow> state \<Rightarrow> state res" where
  "room_disconnect r s = emit_disconnected r s"

definition onLeave :: "rid \<Rightarrow> state \<Rightarrow> state res" where
  "onLeave r s = room_disconnect r (s\<lparr>on_leave_click := remove1 r (on_leave_click s)\<rparr>)"

definition visibilitychange_handler :: "bool \<Rightarrow> track \<Rightarrow> state \<Rightarrow> state res" where
  "visibilitychange_handler hidden lt s =
     Done (s\<lparr>calls := (if hidden then Disable lt else Enable lt) # calls s\<rparr>)"

text \<open>The listeners that the executor of the returned promise registers.\<close>

definition register_teardown :: "rid \<Rightarrow> track \<Rightarrow> state \<Rightarrow> state" where
  "register_teardown r lt s =
     (let b = platform s;
          s1 = (if has_onbeforeunload b
                then s\<lparr>on_beforeunload := on_beforeunload s @ [r]\<rparr> else s);
          s2 = (if isMobile b \<and> name b = ''safari'' \<and> has_onpagehide b
                then s1\<lparr>on_pagehide := on_pagehide s1 @ [r]\<rparr> else s1);
          s3 = (if isMobile b \<and> has_onvisibilitychange b
                then s2\<lparr>on_visibilitychange := on_visibilitychange s2 @ [lt]\<rparr> else s2)
      in s3\<lparr>once_disconnected := once_disconnected s3 @ [(r, lt)]\<rparr>)"

text \<open>
  The callback given to \<^verbatim>\<open>connect(...).then\<close>, for the room object \<open>r\<close> with the
  fields \<open>rm\<close>. \<open>Done\<close>: the callback returned the promise that only \<^verbatim>\<open>resolve()\<close>
  in the \<^verbatim>\<open>disconnected\<close> handler settles. \<open>Raised\<close>: the callback threw, and the
  promise of \<^verbatim>\<open>joinRoom\<close> is rejected with that error.
\<close>

definition connected :: "rid \<Rightarrow> room \<Rightarrow> state \<Rightarrow> state res" where
  "connected r rm s =
     (let s1 = s\<lparr>window_room := Some r, calls := WindowRoom (Some r) # calls s\<rparr>
      in case videoTracks rm of
           [] \<Rightarrow> Raised TypeError s1
         | lt # _ \<Rightarrow>
             (let s2 = attachVideoTrack lt (localParticipant rm) s1;
                  s3 = fold (\<lambda>(p, ps). participantConnected p ps) (participants rm) s2;
                  s4 = s3\<lparr>on_participantConnected := on_participantConnected s3 @ [r],
                          on_participantDisconnected := on_participantDisconnected s3 @ [r]\<rparr>
              in case setCurrentActiveParticipant (Some r) s4 of
                   Raised e s5 \<Rightarrow> Raised e s5
                 | Done s5 \<Rightarrow>
                     Done (register_teardown r lt
                       (s5\<lparr>on_dominantSpeakerChanged := on_dominantSpeakerChanged s5 @ [r],
                            on_leave_click := on_leave_click s5 @ [r]\<rparr>))))"

text \<open>
  \<^verbatim>\<open>joinRoom\<close>, given how \<^verbatim>\<open>connect\<close> settles: rejected, or resolved with a new room
  object.
\<close>

datatype connect_outcome = ConnectRejected | ConnectResolved rid room

definition joinRoom :: "connect_outcome \<Rightarrow> state \<Rightarrow> state res" where
  "joinRoom c s =
     (case c of
        ConnectRejected \<Rightarrow> Raised ConnectError s
      | ConnectResolved r rm \<Rightarrow> connected r rm (s\<lparr>rooms := (rooms s)(r \<mapsto> rm)\<rparr>))"

section \<open>Signals\<close>

text \<open>
  What reaches the module: a call of \<^verbatim>\<open>joinRoom\<close>, the signals of the library's
  objects, and the events of the page. The library updates its own objects before it
  signals. The \<^verbatim>\<open>subscribed\<close> and \<^verbatim>\<open>unsubscribed\<close> signals of a publication carry
  a track, and the listeners act on that track at every signal.
\<close>

datatype event =
    JoinRoom connect_outcome
  | ParticipantConnected rid participant "pub list"
  | ParticipantDisconnected rid participant
  | DominantSpeakerChanged rid "participant option"
  | RoomDisconnected rid
  | TrackPublished participant pub
  | Subscribed pub track
  | Unsubscribed pub track
  | Click participant
  | LeaveClick
  | BeforeUnload
  | PageHide
  | VisibilityChange bool

definition set_dominantSpeaker :: "rid \<Rightarrow> participant option \<Rightarrow> state \<Rightarrow> state" where
  "set_dominantSpeaker r d s =
     (case rooms s r of
        None \<Rightarrow> s
      | Some rm \<Rightarrow> s\<lparr>rooms := (rooms s)(r \<mapsto> rm\<lparr>dominantSpeaker := d\<rparr>)\<rparr>)"

definition listeners_of :: "'k \<Rightarrow> ('k \<times> 'v) list \<Rightarrow> 'v list" where
  "listeners_of k xs = map snd (filter (\<lambda>(k', v). k' = k) xs)"

definition unsubscribed :: "pub \<Rightarrow> (pub \<times> track) list \<Rightarrow> (pub \<times> track) list" where
  "unsubscribed P xs = filter (\<lambda>(P', t). P' \<noteq> P) xs"

fun step :: "event \<Rightarrow> state \<Rightarrow> state res" where
  "step (JoinRoom c) s = joinRoom c s"
| "step (ParticipantConnected r p ps) s =
     emit (\<lambda>_ s'. Done (participantConnected p ps s'))
       (filter (\<lambda>r'. r' = r) (on_participantConnected s)) s"
| "step (ParticipantDisconnected r p) s =
     emit (\<lambda>r'. participantDisconnected_handler r' p)
       (filter (\<lambda>r'. r' = r) (on_participantDisconnected s)) s"
| "step (DominantSpeakerChanged r d) s =
     emit dominantSpeakerChanged_handler
       (filter (\<lambda>r'. r' = r) (on_dominantSpeakerChanged s)) (set_dominantSpeaker r d s)"
| "step (RoomDisconnected r) s = emit_disconnected r s"
| "step (TrackPublished p P) s =
     emit (\<lambda>p' s'. Done (trackPublished P p' s'))
       (filter (\<lambda>p'. p' = p) (on_trackPublished s)) s"
| "step (Subscribed P t) s =
     emit (\<lambda>p s'. Done (attachTrack t p s'))
       (listeners_of P (on_subscription s))
       (s\<lparr>subscriptions := (P, t) # unsubscribed P (subscriptions s)\<rparr>)"
| "step (Unsubscribed P t) s =
     emit (detachTrack t)
       (listeners_of P (on_subscription s))
       (s\<lparr>subscriptions := unsubscribed P (subscriptions s)\<rparr>)"
| "step (Click p) s =
     (if has_container p (participants_children s) then container_click p s else Done s)"
| "step LeaveClick s = emit onLeave (on_leave_click s) s"
| "step BeforeUnload s = emit room_disconnect (on_beforeunload s) s"
| "step PageHide s = emit room_disconnect (on_pagehide s) s"
| "step (VisibilityChange hidden) s =
     emit (visibilitychange_handler hidden) (on_visibilitychange s) s"

text \<open>
  A run of signals. An error thrown by a handler goes to whoever gave the signal; the
  module's state stays as the handler left it, and the next signal finds it so.
\<close>

fun run :: "event list \<Rightarrow> state \<Rightarrow> state" where
  "run [] s = s"
| "run (e # es) s = run es (state_of (step e s))"

section \<open>Selecting a capture device\<close>

text \<open>
  The second module keeps \<^verbatim>\<open>localTracks\<close>, one cached capture track per kind. The
  capture provider hands out tracks (\<open>created\<close>) and a track captures until
  \<^verbatim>\<open>stop()\<close> is called on it (\<open>stopped\<close>); \<open>awaiting\<close> holds the tracks that
  \<^verbatim>\<open>createLocalTracks\<close> has resolved with and whose \<^verbatim>\<open>then\<close> callback has not run
  yet; \<open>rendered\<close> lists the tracks given to the render callback, newest first.
\<close>

record media =
  localTracks :: "kind \<Rightarrow> track option"
  created :: "track list"
  stopped :: "track list"
  awaiting :: "(kind \<times> track) list"
  rendered :: "track list"

definition media_initial :: media where
  "media_initial =
     \<lparr>localTracks = (\<lambda>k. None), created = [], stopped = [], awaiting = [], rendered = []\<rparr>"

definition live :: "media \<Rightarrow> track \<Rightarrow> bool" where
  "live m t = (t \<in> set (created m) \<and> t \<notin> set (stopped m))"

definition stop :: "track \<Rightarrow> media \<Rightarrow> media" where
  "stop t m = m\<lparr>stopped := t # stopped m\<rparr>"

text \<open>How \<^verbatim>\<open>createLocalTracks\<close> settles: rejected, or resolved with one new track.\<close>

datatype capture_outcome = CaptureRejected | CaptureResolved track

definition capture_started :: "track \<Rightarrow> media \<Rightarrow> media" where
  "capture_started t m = m\<lparr>created := t # created m\<rparr>"

text \<open>
  The \<^verbatim>\<open>then\<close> callback of \<^verbatim>\<open>applyInputDevice\<close>: stop the cached track of the kind,
  cache the new one, render it.
\<close>

definition applyInputDevice_then :: "kind \<Rightarrow> track \<Rightarrow> media \<Rightarrow> media" where
  "applyInputDevice_then k t m =
     (let m1 = (case localTracks m k of Some old \<Rightarrow> stop old m | None \<Rightarrow> m)
      in m1\<lparr>localTracks := (localTracks m1)(k := Some t), rendered := t # rendered m1\<rparr>)"

text \<open>
  \<^verbatim>\<open>applyInputDevice\<close> from the call to the settling of its promise: \<open>Raised\<close> is
  the promise rejected with the capture error, \<open>Done\<close> the promise resolved.
\<close>

definition applyInputDevice :: "kind \<Rightarrow> capture_outcome \<Rightarrow> media \<Rightarrow> media res" where
  "applyInputDevice k c m =
     (case c of
        CaptureRejected \<Rightarrow> Raised CaptureError m
      | CaptureResolved t \<Rightarrow> Done (applyInputDevice_then k t (capture_started t m)))"

text \<open>The \<^verbatim>\<open>hidden.bs.modal\<close> handler of \<^verbatim>\<open>selectMedia\<close>.\<close>

definition onHide :: "kind \<Rightarrow> media \<Rightarrow> media" where
  "onHide k m =
     (case localTracks m k of
        Some t \<Rightarrow> (stop t m)\<lparr>localTracks := (localTracks m)(k := None)\<rparr>
      | None \<Rightarrow> m)"

text \<open>
  The same flow in the steps the page sees: a capture resolves, later its callback
  runs, a capture fails, the modal closes.
\<close>

datatype media_event =
    CaptureStarted kind track
  | CaptureDelivered kind track
  | CaptureFailed kind
  | ModalHidden kind

fun media_step :: "media_event \<Rightarrow> media \<Rightarrow> media" where
  "media_step (CaptureStarted k t) m =
     (capture_started t m)\<lparr>awaiting := awaiting m @ [(k, t)]\<rparr>"
| "media_step (CaptureDelivered k t) m =
     (if (k, t) \<in> set (awaiting m)
      then applyInputDevice_then k t (m\<lparr>awaiting := remove1 (k, t) (awaiting m)\<rparr>)
      else m)"
| "media_step (CaptureFailed k) m = m"
| "media_step (ModalHidden k) m = onHide k m"

fun media_run :: "media_event list \<Rightarrow> media \<Rightarrow> media" where
  "media_run [] m = m"
| "media_run (e # es) m = media_run es (media_step e m)"

text \<open>The capture provider hands out a track once, and of the kind asked for.\<close>

fun capture_ok :: "media \<Rightarrow> media_event \<Rightarrow> bool" where
  "capture_ok m (CaptureStarted k t) = (t \<notin> set (created m) \<and> kind t = k)"
| "capture_ok m e = True"

fun media_feasible :: "media_event list \<Rightarrow> media \<Rightarrow> bool" where
  "media_feasible [] m = True"
| "media_feasible (e # es) m = (capture_ok m e \<and> media_feasible es (media_step e m))"

section \<open>A small cast for the examples\<close>

text \<open>
  The page of the examples. A double quote in an identity ends the attribute in the
  markup and makes the selector one that jQuery rejects; \<^verbatim>\<open>&amp;\<close> in the markup is
  the character \<^verbatim>\<open>&\<close> in the attribute. The identities of the examples hold letters,
  and these two; no other character reference, no backslash and no line break occurs
  in them, and the two functions say nothing true of identities that hold one.
\<close>

definition double_quote :: char where "double_quote = CHR 0x22"

fun decoded :: "string \<Rightarrow> string" where
  "decoded (a # b # c # d # e # cs) =
     (if [a, b, c, d, e] = ''&amp;'' then CHR ''&'' # decoded cs
      else a # decoded (b # c # d # e # cs))"
| "decoded cs = cs"

definition parsed_attribute :: "string \<Rightarrow> string" where
  "parsed_attribute i = decoded (takeWhile (\<lambda>c. c \<noteq> double_quote) i)"

definition parsed_selector :: "string \<Rightarrow> string option" where
  "parsed_selector i = (if double_quote \<in> set i then None else Some i)"

definition desktop :: browser where
  "desktop =
     \<lparr>isMobile = False, name = ''chrome'', has_onbeforeunload = True,
       has_onpagehide = True, has_onvisibilitychange = True,
       attribute = parsed_attribute, selector = parsed_selector\<rparr>"

definition me :: participant where "me = Participant 0 ''me''"

definition alice :: participant where "alice = Participant 1 ''alice''"

definition bob :: participant where "bob = Participant 2 ''bob''"

definition camera :: track where "camera = Track 0 Video"

definition alice_video :: track where "alice_video = Track 1 Video"

definition bob_video :: track where "bob_video = Track 2 Video"

definition alone :: room where
  "alone =
     \<lparr>localParticipant = me, videoTracks = [camera], dominantSpeaker = None,
       participants = []\<rparr>"

definition with_alice :: room where
  "with_alice =
     \<lparr>localParticipant = me, videoTracks = [camera], dominantSpeaker = None,
       participants = [(alice, [1])]\<rparr>"

definition trio :: room where
  "trio =
     \<lparr>localParticipant = me, videoTracks = [camera], dominantSpeaker = None,
       participants = [(alice, [1]), (bob, [2])]\<rparr>"

definition audio_only :: room where
  "audio_only =
     \<lparr>localParticipant = me, videoTracks = [], dominantSpeaker = None,
       participants = [(alice, [1])]\<rparr>"

text \<open>Alice's video is subscribed, then the local participant joins her room.\<close>

definition in_call :: state where
  "in_call = run [Subscribed 1 alice_video, JoinRoom (ConnectResolved 0 with_alice)] (initial desktop)"

text \<open>
  Participants with an identity that the page does not read as it is written: Eve, and
  the local participant under two other names. Bob speaks in the room of three.
\<close>

definition eve :: participant where "eve = Participant 3 [CHR ''a'', double_quote, CHR ''b'']"

definition eve_video :: track where "eve_video = Track 3 Video"

definition quoted_me :: participant where
  "quoted_me = Participant 0 [CHR ''a'', double_quote, CHR ''b'']"

definition amp_me :: participant where "amp_me = Participant 0 ''a&amp;b''"

definition with_eve :: room where
  "with_eve =
     \<lparr>localParticipant = me, videoTracks = [camera], dominantSpeaker = None,
       participants = [(eve, [3])]\<rparr>"


definition amp_alone :: room where
  "amp_alone =
     \<lparr>localParticipant = amp_me, videoTracks = [camera], dominantSpeaker = None,
       participants = []\<rparr>"

definition quoted_alone :: room where
  "quoted_alone =
     \<lparr>localParticipant = quoted_me, videoTracks = [camera], dominantSpeaker = None,
       participants = []\<rparr>"

definition bob_speaks :: room where
  "bob_speaks =
     \<lparr>localParticipant = me, videoTracks = [camera], dominantSpeaker = Some bob,
       participants = [(alice, [1]), (bob, [2])]\<rparr>"

definition with_speaker :: state where
  "with_speaker =
     run [Subscribed 1 alice_video, Subscribed 2 bob_video,
          JoinRoom (ConnectResolved 0 bob_speaks)] (initial desktop)"

definition eve_joined :: state where
  "eve_joined =
     run [Subscribed 3 eve_video, JoinRoom (ConnectResolved 0 with_eve)] (initial desktop)"




section \<open>Ending a session\<close>

text \<open>
  The signals that end a session: the room's own \<^verbatim>\<open>disconnected\<close>, and the three
  page events whose handlers call \<^verbatim>\<open>room.disconnect()\<close>. \<open>reaches_disconnect\<close> says
  that the handler of such an event is registered for room \<open>r\<close>.
\<close>

fun teardown_trigger :: "event \<Rightarrow> bool" where
  "teardown_trigger (RoomDisconnected r) = True"
| "teardown_trigger LeaveClick = True"
| "teardown_trigger BeforeUnload = True"
| "teardown_trigger PageHide = True"
| "teardown_trigger e = False"




text \<open>Bob is pinned by a click in a room of three.\<close>

definition bob_pinned :: state where
  "bob_pinned =
     run [Subscribed 1 alice_video, Subscribed 2 bob_video,
          JoinRoom (ConnectResolved 0 trio), Click bob] (initial desktop)"


section \<open>What leaves a pin alone\<close>


section \<open>The promise of a join\<close>

text \<open>
  The rooms whose promise \<^verbatim>\<open>resolve()\<close> has been called for, read off the calls. The
  promise that \<^verbatim>\<open>joinRoom\<close> returned for room \<open>r\<close> is rejected when the callback
  threw; otherwise it is pending until that call and fulfilled from then on. \<open>out\<close>
  is the outcome of the callback and \<open>es\<close> the signals since.
\<close>

fun resolves :: "call list \<Rightarrow> rid list" where
  "resolves [] = []"
| "resolves (Resolve r # cs) = r # resolves cs"
| "resolves (c # cs) = resolves cs"

datatype promise = Pending | Fulfilled | Rejected js_error

definition join_promise :: "rid \<Rightarrow> state res \<Rightarrow> event list \<Rightarrow> promise" where
  "join_promise r out es =
     (case out of
        Raised e s \<Rightarrow> Rejected e
      | Done s \<Rightarrow> if r \<in> set (resolves (calls (run es s))) then Fulfilled else Pending)"

text \<open>
  Before its session ends, a room \<open>r\<close> sees any signal but a teardown trigger and a
  join that connects with the same room object once more.
\<close>

fun before_end :: "rid \<Rightarrow> event \<Rightarrow> bool" where
  "before_end r (JoinRoom ConnectRejected) = True"
| "before_end r (JoinRoom (ConnectResolved r' rm)) = (r' \<noteq> r)"
| "before_end r e = (\<not> teardown_trigger e)"

text \<open>
  What a handler that ends no session leaves alone: the \<^verbatim>\<open>once\<close> listeners, the page,
  the local participant of every room object, and the promises resolved so far.
\<close>

definition local_participants :: "state \<Rightarrow> rid \<Rightarrow> participant option" where
  "local_participants s r = map_option localParticipant (rooms s r)"

definition keeps :: "state \<Rightarrow> state \<Rightarrow> bool" where
  "keeps s s' \<longleftrightarrow>
     once_disconnected s' = once_disconnected s \<and> platform s' = platform s
     \<and> local_participants s' = local_participants s
     \<and> resolves (calls s') = resolves (calls s)"

text \<open>A join of another room leaves them alone as far as room \<open>r\<close> goes.\<close>

definition awaits :: "rid \<Rightarrow> state \<Rightarrow> state \<Rightarrow> bool" where
  "awaits r s s' \<longleftrightarrow>
     filter (\<lambda>(r', lt). r' = r) (once_disconnected s')
       = filter (\<lambda>(r', lt). r' = r) (once_disconnected s)
     \<and> platform s' = platform s
     \<and> local_participants s' r = local_participants s r
     \<and> resolves (calls s') = resolves (calls s)"

section \<open>What holds a live capture\<close>

text \<open>
  A track is held when it is the cached track of its kind, or was handed out by the
  provider and waits for its callback. Every awaited track is of the kind asked for.
\<close>

definition held :: "media \<Rightarrow> track \<Rightarrow> bool" where
  "held m t = (localTracks m (kind t) = Some t \<or> (kind t, t) \<in> set (awaiting m))"

definition awaited_kinds :: "media \<Rightarrow> bool" where
  "awaited_kinds m = list_all (\<lambda>(k, t). kind t = k) (awaiting m)"

text \<open>A second camera is chosen while the first one is cached.\<close>

definition second_camera :: track where "second_camera = Track 5 Video"

definition switching :: media where
  "switching =
     media_run [CaptureStarted Video camera, CaptureDelivered Video camera,
                CaptureStarted Video second_camera] media_initial"

section \<open>A second session\<close>

text \<open>
  The local participant joins alone, clicks the own preview, leaves, and joins alone
  again.
\<close>

definition first_session :: state where
  "first_session = run [JoinRoom (ConnectResolved 0 alone)] (initial desktop)"

definition rejoined :: state where
  "rejoined =
     run [JoinRoom (ConnectResolved 0 alone), Click me, LeaveClick,
          JoinRoom (ConnectResolved 1 alone)] (initial desktop)"

text \<open>What attaching tracks and registering publications leave alone.\<close>

definition same_selection :: "state \<Rightarrow> state \<Rightarrow> bool" where
  "same_selection s s' \<longleftrightarrow>
     activeParticipant s' = activeParticipant s
     \<and> isActiveParticipantPinned s' = isActiveParticipantPinned s
     \<and> rooms s' = rooms s \<and> window_room s' = window_room s"

section \<open>Attach and detach calls on a track\<close>

text \<open>
  Read off the calls, newest first: whether a track is attached after them; whether
  its attach and detach calls alternate, every attach made while it was detached and
  every detach while it was attached.
\<close>

fun attached :: "call list \<Rightarrow> track \<Rightarrow> bool" where
  "attached [] t = False"
| "attached (Attach u # cs) t = (u = t \<or> attached cs t)"
| "attached (Detach u # cs) t = (u \<noteq> t \<and> attached cs t)"
| "attached (c # cs) t = attached cs t"

fun alternates :: "call list \<Rightarrow> track \<Rightarrow> bool" where
  "alternates [] t = True"
| "alternates (Attach u # cs) t =
     (if u = t then \<not> attached cs t \<and> alternates cs t else alternates cs t)"
| "alternates (Detach u # cs) t =
     (if u = t then attached cs t \<and> alternates cs t else alternates cs t)"
| "alternates (c # cs) t = alternates cs t"

text \<open>
  The tracks the module should be showing: the track of every subscribed publication
  it has registered, and the local preview of every session whose teardown is still to
  come.
\<close>

definition registered :: "state \<Rightarrow> pub set" where
  "registered s = fst ` set (on_subscription s)"

definition bound_tracks :: "state \<Rightarrow> track list" where
  "bound_tracks s =
     map snd (filter (\<lambda>(P, t). P \<in> registered s) (subscriptions s))
     @ map snd (once_disconnected s)"

text \<open>
  The previews left behind. A join whose setup throws after the preview was attached
  has registered the \<^verbatim>\<open>participantConnected\<close> listener of its room and not the
  \<^verbatim>\<open>dominantSpeakerChanged\<close> one; no \<^verbatim>\<open>disconnected\<close> listener will detach its preview.
\<close>

definition local_videoTracks :: "state \<Rightarrow> rid \<Rightarrow> track list" where
  "local_videoTracks s r = (case rooms s r of None \<Rightarrow> [] | Some rm \<Rightarrow> videoTracks rm)"

definition leaked_previews :: "state \<Rightarrow> track list" where
  "leaked_previews s =
     concat (map (\<lambda>r. take 1 (local_videoTracks s r))
       (filter (\<lambda>r. r \<notin> set (on_dominantSpeakerChanged s)) (on_participantConnected s)))"

text \<open>
  What the module takes for granted of the library: a room, a participant and a
  publication are announced once; a publication is signalled subscribed only while it
  is not, with a track that no other publication and no preview holds; it is signalled
  unsubscribed only while it is subscribed, with its track; the local video track of a
  new room is no track of a publication and no preview of another session.
\<close>

fun provider_ok :: "state \<Rightarrow> event \<Rightarrow> bool" where
  "provider_ok s (JoinRoom ConnectRejected) = True"
| "provider_ok s (JoinRoom (ConnectResolved r rm)) =
     (r \<notin> set (on_participantConnected s)
      \<and> distinct (map fst (participants rm))
      \<and> list_all (\<lambda>p. p \<notin> set (on_trackPublished s)) (map fst (participants rm))
      \<and> distinct (concat (map snd (participants rm)))
      \<and> list_all (\<lambda>P. P \<notin> registered s) (concat (map snd (participants rm)))
      \<and> (case videoTracks rm of
            [] \<Rightarrow> True
          | lt # _ \<Rightarrow>
              lt \<notin> snd ` set (subscriptions s) \<and> lt \<notin> snd ` set (once_disconnected s)
              \<and> lt \<notin> set (leaked_previews s)))"
| "provider_ok s (ParticipantConnected r p ps) =
     (distinct ps \<and> list_all (\<lambda>P. P \<notin> registered s) ps \<and> p \<notin> set (on_trackPublished s))"
| "provider_ok s (TrackPublished p P) = (P \<notin> registered s)"
| "provider_ok s (Subscribed P t) =
     (P \<notin> fst ` set (subscriptions s) \<and> t \<notin> snd ` set (subscriptions s)
      \<and> t \<notin> snd ` set (once_disconnected s) \<and> t \<notin> set (leaked_previews s))"
| "provider_ok s (Unsubscribed P t) = ((P, t) \<in> set (subscriptions s))"
| "provider_ok s e = True"

fun feasible :: "event list \<Rightarrow> state \<Rightarrow> bool" where
  "feasible [] s = True"
| "feasible (e # es) s = (provider_ok s e \<and> feasible es (state_of (step e s)))"

text \<open>
  The bookkeeping behind the pairing: listeners and subscriptions are registered once,
  previews and subscribed tracks are different tracks, and the tracks attached are the
  bound ones and those of \<open>X\<close>, the previews left behind and the one of a join under
  way.
\<close>

definition lists_ok :: "state \<Rightarrow> bool" where
  "lists_ok s \<longleftrightarrow>
     distinct (on_trackPublished s) \<and> distinct (on_participantConnected s)
     \<and> distinct (map fst (on_subscription s))
     \<and> distinct (map fst (subscriptions s)) \<and> distinct (map snd (subscriptions s))
     \<and> distinct (map fst (once_disconnected s)) \<and> distinct (map snd (once_disconnected s))
     \<and> fst ` set (once_disconnected s) \<subseteq> set (on_participantConnected s)
     \<and> fst ` set (once_disconnected s) \<subseteq> dom (rooms s)
     \<and> set (on_dominantSpeakerChanged s) \<subseteq> set (on_participantConnected s)
     \<and> snd ` set (once_disconnected s) \<inter> snd ` set (subscriptions s) = {}"

definition shown :: "track set \<Rightarrow> state \<Rightarrow> bool" where
  "shown X s \<longleftrightarrow>
     X \<inter> snd ` set (subscriptions s) = {} \<and> X \<inter> snd ` set (once_disconnected s) = {}
     \<and> (\<forall>t. attached (calls s) t \<longleftrightarrow> t \<in> set (bound_tracks s) \<or> t \<in> X)
     \<and> (\<forall>t. alternates (calls s) t)"

text \<open>What a handler that neither attaches nor registers leaves alone.\<close>

definition undisturbed :: "state \<Rightarrow> state \<Rightarrow> bool" where
  "undisturbed s s' \<longleftrightarrow>
     on_trackPublished s' = on_trackPublished s
     \<and> on_participantConnected s' = on_participantConnected s
     \<and> on_dominantSpeakerChanged s' = on_dominantSpeakerChanged s
     \<and> on_subscription s' = on_subscription s
     \<and> subscriptions s' = subscriptions s
     \<and> once_disconnected s' = once_disconnected s
     \<and> dom (rooms s') = dom (rooms s)
     \<and> local_videoTracks s' = local_videoTracks s
     \<and> attached (calls s') = attached (calls s)
     \<and> alternates (calls s') = alternates (calls s)"

text \<open>
  Four runs: Alice's video is still subscribed when the session ends; her publication
  is signalled subscribed twice in a row; it is signalled unsubscribed twice in a row;
  and Alice is the dominant speaker of a room joined before her video is subscribed,
  so that the setup throws after it has attached the preview.
\<close>

definition left_subscribed :: state where
  "left_subscribed =
     run [Subscribed 1 alice_video, JoinRoom (ConnectResolved 0 with_alice),
          RoomDisconnected 0] (initial desktop)"

definition subscribed_twice :: state where
  "subscribed_twice =
     run [JoinRoom (ConnectResolved 0 with_alice), Subscribed 1 alice_video,
          Subscribed 1 alice_video] (initial desktop)"

definition unsubscribed_twice :: state where
  "unsubscribed_twice =
     run [JoinRoom (ConnectResolved 0 with_alice), Subscribed 1 alice_video,
          Unsubscribed 1 alice_video, Unsubscribed 1 alice_video] (initial desktop)"

definition alice_speaks :: room where
  "alice_speaks =
     \<lparr>localParticipant = me, videoTracks = [camera], dominantSpeaker = Some alice,
       participants = [(alice, [1])]\<rparr>"

definition failed_join :: state where
  "failed_join =
     run [JoinRoom (ConnectResolved 0 alice_speaks), LeaveClick, RoomDisconnected 0]
       (initial desktop)"

section \<open>What setting the active participant writes\<close>

lemma demoted_flag:
  "demoted (s\<lparr>isActiveParticipantPinned := b\<rparr>) = demoted s"
  by (simp add: demoted_def split: option.splits)

lemma demoted_accepted:
  "accepts_active s \<Longrightarrow> \<exists>d. demoted s = Some d"
  by (auto simp add: demoted_def accepts_active_def accepts_def split: option.splits)

lemma demoted_rejected:
  "\<not> accepts_active s \<Longrightarrow> demoted s = None"
  by (auto simp add: demoted_def accepts_active_def accepts_def split: option.splits)

lemma setActiveParticipant_active:
  "accepts_active s \<Longrightarrow> activeParticipant (state_of (setActiveParticipant p s)) = Some p"
  using demoted_accepted [of s]
  by (auto simp add: setActiveParticipant_def Let_def split: option.splits)

lemma setActiveParticipant_rejected:
  "\<not> accepts_active s \<Longrightarrow> setActiveParticipant p s = Raised SelectorError s"
  using demoted_rejected [of s] by (simp add: setActiveParticipant_def)

lemma setActiveParticipant_pinned:
  "isActiveParticipantPinned (state_of (setActiveParticipant p s)) = isActiveParticipantPinned s"
  by (simp add: setActiveParticipant_def Let_def split: option.splits)

lemma setActiveParticipant_rooms:
  "rooms (state_of (setActiveParticipant p s)) = rooms s"
  by (simp add: setActiveParticipant_def Let_def split: option.splits)

lemma setActiveParticipant_window_room:
  "window_room (state_of (setActiveParticipant p s)) = window_room s"
  by (simp add: setActiveParticipant_def Let_def split: option.splits)

lemma setActiveParticipant_platform:
  "platform (state_of (setActiveParticipant p s)) = platform s"
  by (simp add: setActiveParticipant_def Let_def split: option.splits)

lemma has_container_with_identity:
  "(\<And>c. owner (f c) = owner c) \<Longrightarrow>
     has_container p (with_identity i f ns) = has_container p ns"
  unfolding with_identity_def
  by (induction p ns rule: has_container.induct) auto

lemma demoted_has_container:
  "demoted s = Some d \<Longrightarrow> has_container q d = has_container q (participants_children s)"
  by (auto simp add: demoted_def has_container_with_identity split: option.splits)

lemma setActiveParticipant_has_container:
  "has_container q (participants_children (state_of (setActiveParticipant p s)))
     = has_container q (participants_children s)"
  by (simp add: setActiveParticipant_def Let_def has_container_with_identity
      demoted_has_container split: option.splits)

lemmas setActiveParticipant_writes =
  setActiveParticipant_pinned setActiveParticipant_rooms
  setActiveParticipant_window_room setActiveParticipant_platform
  setActiveParticipant_has_container

lemma accepts_active_flag:
  "accepts_active (s\<lparr>isActiveParticipantPinned := b\<rparr>) = accepts_active s"
  by (simp add: accepts_active_def accepts_def split: option.splits)

lemma accepts_active_same:
  "activeParticipant s' = activeParticipant s \<Longrightarrow> platform s' = platform s \<Longrightarrow>
     accepts_active s' = accepts_active s"
  by (simp add: accepts_active_def accepts_def split: option.splits)

lemma setCurrentActiveParticipant_active:
  "rooms s r = Some rm \<Longrightarrow> accepts_active s \<Longrightarrow>
     activeParticipant (state_of (setCurrentActiveParticipant (Some r) s))
       = Some (case dominantSpeaker rm of Some d \<Rightarrow> d | None \<Rightarrow> localParticipant rm)"
  by (simp add: setCurrentActiveParticipant_def setActiveParticipant_active speaker_or_local_def)

lemma setCurrentActiveParticipant_pinned:
  "isActiveParticipantPinned (state_of (setCurrentActiveParticipant ro s))
     = isActiveParticipantPinned s"
  by (simp add: setCurrentActiveParticipant_def setActiveParticipant_pinned
      split: option.splits)

section \<open>What attaching and registering leave alone\<close>

lemma same_selection_trans:
  "same_selection s s' \<Longrightarrow> same_selection s' s'' \<Longrightarrow> same_selection s s''"
  by (simp add: same_selection_def)

lemma same_selection_attachTrack: "same_selection s (attachTrack t p s)"
  by (simp add: same_selection_def attachTrack_def attachAudioTrack_def attachVideoTrack_def
      split: kind.splits)

lemma same_selection_trackPublished: "same_selection s (trackPublished P p s)"
  using same_selection_attachTrack [of s]
  by (simp add: same_selection_def trackPublished_def Let_def split: option.splits)

lemma same_selection_fold:
  "(\<And>x s. same_selection s (f x s)) \<Longrightarrow> same_selection s (fold f xs s)"
proof (induction xs arbitrary: s)
  case Nil
  show ?case by (simp add: same_selection_def)
next
  case (Cons x xs)
  from Cons.prems have "same_selection s (f x s)" by blast
  moreover have "same_selection (f x s) (fold f xs (f x s))" using Cons by blast
  ultimately show ?case using same_selection_trans by simp
qed

lemma same_selection_participantConnected: "same_selection s (participantConnected p ps s)"
proof -
  have "same_selection s (fold (\<lambda>P. trackPublished P p) ps s)"
    by (rule same_selection_fold) (rule same_selection_trackPublished)
  then show ?thesis by (simp add: same_selection_def participantConnected_def Let_def)
qed

lemma emit_preserves:
  "(\<And>x s. Q s \<Longrightarrow> Q (state_of (h x s))) \<Longrightarrow> Q s \<Longrightarrow> Q (state_of (emit h xs s))"
proof (induction xs arbitrary: s)
  case Nil
  then show ?case by simp
next
  case (Cons x xs)
  have q: "Q (state_of (h x s))" using Cons.prems by blast
  show ?case
  proof (cases "h x s")
    case (Done s')
    with q have "Q s'" by simp
    with Cons.IH [of s'] Cons.prems(1) Done show ?thesis by simp
  next
    case (Raised e s')
    with q show ?thesis by simp
  qed
qed

section \<open>A pin and the signals after it\<close>



lemma set_dominantSpeaker_pinned:
  "isActiveParticipantPinned (set_dominantSpeaker r d s) = isActiveParticipantPinned s"
  by (simp add: set_dominantSpeaker_def split: option.splits)












section \<open>A pinned participant leaves\<close>

lemma filter_same_member:
  "r \<in> set xs \<Longrightarrow> \<exists>n. filter (\<lambda>r'. r' = r) xs = r # replicate n r"
proof (induction xs)
  case Nil
  then show ?case by simp
next
  case (Cons x xs)
  show ?case
  proof (cases "r \<in> set xs")
    case True
    with Cons.IH obtain n where "filter (\<lambda>r'. r' = r) xs = r # replicate n r" by blast
    then show ?thesis
      by (cases "x = r") (auto intro: exI [of _ "Suc n"])
  next
    case False
    then have "filter (\<lambda>r'. r' = r) xs = []" by (auto simp add: filter_empty_conv)
    with Cons.prems False show ?thesis by (auto intro: exI [of _ 0])
  qed
qed





section \<open>Joining without a local video track\<close>

text \<open>
  Claim C9. When the local participant of the connected room has no video track, the
  setup after \<^verbatim>\<open>connect\<close> throws at the read of the first element's \<^verbatim>\<open>track\<close>: the
  only writes are the room object and \<^verbatim>\<open>window.room\<close>; no preview is attached, the
  page is as before and no listener is registered for any remote participant.
\<close>

theorem join_without_local_video:
  assumes "videoTracks rm = []"
  shows "joinRoom (ConnectResolved r rm) s =
           Raised TypeError
             (s\<lparr>rooms := (rooms s)(r \<mapsto> rm), window_room := Some r,
                calls := WindowRoom (Some r) # calls s\<rparr>)"
  using assms by (simp add: joinRoom_def connected_def)

theorem join_without_local_video_witness:
  "videoTracks audio_only = []
   \<and> raised (joinRoom (ConnectResolved 0 audio_only) (initial desktop))
   \<and> participants_children (state_of (joinRoom (ConnectResolved 0 audio_only) (initial desktop))) = []
   \<and> calls (state_of (joinRoom (ConnectResolved 0 audio_only) (initial desktop))) = [WindowRoom (Some 0)]
   \<and> on_subscription (state_of (joinRoom (ConnectResolved 0 audio_only) (initial desktop))) = []
   \<and> on_trackPublished (state_of (joinRoom (ConnectResolved 0 audio_only) (initial desktop))) = []"
proof -
  have h: "videoTracks audio_only = []" by (simp add: audio_only_def)
  show ?thesis
    unfolding join_without_local_video [OF h]
    using h by (simp add: initial_def)
qed

section \<open>Two clicks on a container\<close>

text \<open>
  Claim C5, amended. While a session is live (\<^verbatim>\<open>window.room\<close> holds its room), \<open>A\<close>
  is not already the pinned active participant, and jQuery accepts the selectors
  spliced from the identities of \<open>A\<close> and of the participant active until then, two
  clicks in a row on a container of \<open>A\<close> leave the pinned flag false and the active
  participant equal to the room's dominant speaker, or to the local participant when
  there is none. That is the participant active before the clicks when the selection
  before them was this one.
\<close>

theorem two_clicks_unpin:
  assumes "has_container A (participants_children s)"
    and "\<not> (activeParticipant s = Some A \<and> isActiveParticipantPinned s)"
    and "window_room s = Some r" and "rooms s r = Some rm"
    and "accepts_active s" and "accepts s A"
  shows "\<not> isActiveParticipantPinned (run [Click A, Click A] s)
       \<and> activeParticipant (run [Click A, Click A] s)
           = Some (case dominantSpeaker rm of Some d \<Rightarrow> d | None \<Rightarrow> localParticipant rm)
       \<and> (activeParticipant s
            = Some (case dominantSpeaker rm of Some d \<Rightarrow> d | None \<Rightarrow> localParticipant rm) \<longrightarrow>
            activeParticipant (run [Click A, Click A] s) = activeParticipant s)"
proof -
  let ?s0 = "s\<lparr>isActiveParticipantPinned := True\<rparr>"
  define s1 where "s1 = state_of (setActiveParticipant A ?s0)"
  have c1: "state_of (step (Click A) s) = s1"
    using assms(1,2) by (auto simp add: s1_def container_click_def)
  have a0: "accepts_active ?s0" using assms(5) by (simp add: accepts_active_flag)
  have p1: "isActiveParticipantPinned s1" "activeParticipant s1 = Some A"
    "has_container A (participants_children s1)" "window_room s1 = Some r" "rooms s1 r = Some rm"
    "platform s1 = platform s"
    using assms(1,3,4) a0
    by (simp_all add: s1_def setActiveParticipant_writes setActiveParticipant_active)
  let ?s1 = "s1\<lparr>isActiveParticipantPinned := False\<rparr>"
  have c2: "step (Click A) s1 = setCurrentActiveParticipant (Some r) ?s1"
    using p1 by (simp add: container_click_def)
  have r1: "rooms ?s1 r = Some rm" using p1(5) by simp
  have a1: "accepts_active ?s1"
    using p1(2,6) assms(6) by (simp add: accepts_active_def accepts_def)
  have "run [Click A, Click A] s = state_of (step (Click A) s1)"
    using c1 by (simp del: step.simps)
  then show ?thesis
    unfolding c2
    using setCurrentActiveParticipant_active [OF r1 a1]
      setCurrentActiveParticipant_pinned [of "Some r" ?s1]
    by simp
qed

theorem two_clicks_unpin_witness:
  "has_container alice (participants_children with_speaker)
   \<and> window_room with_speaker = Some 0 \<and> rooms with_speaker 0 = Some bob_speaks
   \<and> accepts_active with_speaker \<and> accepts with_speaker alice
   \<and> activeParticipant with_speaker = Some bob
   \<and> \<not> isActiveParticipantPinned (run [Click alice, Click alice] with_speaker)
   \<and> activeParticipant (run [Click alice, Click alice] with_speaker) = Some bob"
proof -
  have h1: "has_container alice (participants_children with_speaker)" by code_simp
  have h2: "\<not> (activeParticipant with_speaker = Some alice
              \<and> isActiveParticipantPinned with_speaker)"
    by code_simp
  have h3: "window_room with_speaker = Some 0" by code_simp
  have h4: "rooms with_speaker 0 = Some bob_speaks" by code_simp
  have h5: "accepts_active with_speaker" by code_simp
  have h6: "accepts with_speaker alice" by code_simp
  have h7: "activeParticipant with_speaker = Some bob" by code_simp
  have h8: "dominantSpeaker bob_speaks = Some bob" by (simp add: bob_speaks_def)
  from two_clicks_unpin [OF h1 h2 h3 h4 h5 h6] h8
  have "\<not> isActiveParticipantPinned (run [Click alice, Click alice] with_speaker)
      \<and> activeParticipant (run [Click alice, Click alice] with_speaker) = Some bob"
    by simp
  with h1 h3 h4 h5 h6 h7 show ?thesis by blast
qed

text \<open>
  The participant active before the clicks is not restored when it was a pinned one:
  with Bob pinned, two clicks on Alice's container leave the local participant active,
  not Bob. And two clicks on the container of Eve, whose identity holds a double
  quote, leave Eve active, not the local participant that was active before: the
  second click throws before it assigns.
\<close>

theorem two_clicks_counterexample:
  "has_container alice (participants_children bob_pinned)
   \<and> activeParticipant bob_pinned = Some bob
   \<and> activeParticipant (run [Click alice, Click alice] bob_pinned) = Some me
   \<and> \<not> isActiveParticipantPinned (run [Click alice, Click alice] bob_pinned)
   \<and> has_container eve (participants_children eve_joined)
   \<and> activeParticipant eve_joined = Some me \<and> \<not> isActiveParticipantPinned eve_joined
   \<and> window_room eve_joined = Some 0 \<and> rooms eve_joined 0 = Some with_eve
   \<and> dominantSpeaker with_eve = None \<and> localParticipant with_eve = me
   \<and> activeParticipant (run [Click eve, Click eve] eve_joined) = Some eve"
  by code_simp

section \<open>Tearing a session down\<close>




lemma detachTrack_accepted:
  "accepts s p \<Longrightarrow> detachTrack t p s = Done (state_of (detachTrack t p s))"
  by (auto simp add: detachTrack_def accepts_def Let_def)

lemma detachTrack_once:
  "detachTrack t p (s\<lparr>once_disconnected := l\<rparr>)
     = (case detachTrack t p s of
          Done s' \<Rightarrow> Done (s'\<lparr>once_disconnected := l\<rparr>)
        | Raised e s' \<Rightarrow> Raised e (s'\<lparr>once_disconnected := l\<rparr>))"
  by (simp add: detachTrack_def Let_def split: option.splits)

lemma detachTrack_calls:
  "calls (state_of (detachTrack t p s)) = Detach t # calls s"
  by (simp add: detachTrack_def Let_def split: option.splits)


















section \<open>When the promise of a join settles\<close>

lemma keeps_refl: "keeps s s"
  by (simp add: keeps_def)

lemma keeps_trans: "keeps s s' \<Longrightarrow> keeps s' s'' \<Longrightarrow> keeps s s''"
  by (simp add: keeps_def)

lemma keeps_attachTrack: "keeps s (attachTrack t p s)"
  by (simp add: keeps_def fun_eq_iff local_participants_def attachTrack_def
      attachAudioTrack_def attachVideoTrack_def split: kind.splits)

lemma keeps_detachTrack: "keeps s (state_of (detachTrack t p s))"
  by (simp add: keeps_def fun_eq_iff local_participants_def detachTrack_def Let_def
      split: option.splits)

lemma keeps_trackPublished: "keeps s (trackPublished P p s)"
  using keeps_attachTrack [of s]
  by (simp add: keeps_def fun_eq_iff local_participants_def trackPublished_def Let_def
      split: option.splits)

lemma keeps_fold:
  "(\<And>x s. keeps s (f x s)) \<Longrightarrow> keeps s (fold f xs s)"
proof (induction xs arbitrary: s)
  case Nil
  show ?case by (simp add: keeps_refl)
next
  case (Cons x xs)
  from Cons.prems have "keeps s (f x s)" by blast
  moreover have "keeps (f x s) (fold f xs (f x s))" using Cons by blast
  ultimately show ?case using keeps_trans by simp
qed

lemma keeps_participantConnected: "keeps s (participantConnected p ps s)"
proof -
  have "keeps s (fold (\<lambda>P. trackPublished P p) ps s)"
    by (rule keeps_fold) (rule keeps_trackPublished)
  then show ?thesis
    by (simp add: keeps_def fun_eq_iff local_participants_def participantConnected_def Let_def)
qed

lemma keeps_setActiveParticipant: "keeps s (state_of (setActiveParticipant p s))"
  by (simp add: keeps_def fun_eq_iff local_participants_def setActiveParticipant_def Let_def
      split: option.splits)

lemma keeps_setCurrentActiveParticipant: "keeps s (state_of (setCurrentActiveParticipant ro s))"
  by (simp add: setCurrentActiveParticipant_def keeps_refl keeps_setActiveParticipant split: option.splits)

lemma keeps_flag: "keeps s (s\<lparr>isActiveParticipantPinned := b\<rparr>)"
  by (simp add: keeps_def fun_eq_iff local_participants_def)

lemma keeps_container_click: "keeps s (state_of (container_click p s))"
  unfolding container_click_def
  using keeps_trans [OF keeps_flag keeps_setCurrentActiveParticipant]
        keeps_trans [OF keeps_flag keeps_setActiveParticipant]
  by simp

lemma keeps_participantDisconnected_handler:
  "keeps s (state_of (participantDisconnected_handler r p s))"
  unfolding participantDisconnected_handler_def
  using keeps_trans [OF keeps_flag keeps_setCurrentActiveParticipant]
  by (simp add: keeps_refl)

lemma keeps_dominantSpeakerChanged_handler:
  "keeps s (state_of (dominantSpeakerChanged_handler r s))"
  unfolding dominantSpeakerChanged_handler_def
  by (simp add: keeps_refl keeps_setCurrentActiveParticipant)

lemma keeps_visibilitychange_handler:
  "keeps s (state_of (visibilitychange_handler h lt s))"
  by (cases h) (simp_all add: keeps_def fun_eq_iff local_participants_def visibilitychange_handler_def)

lemma keeps_set_dominantSpeaker: "keeps s (set_dominantSpeaker r d s)"
  by (auto simp add: keeps_def fun_eq_iff local_participants_def set_dominantSpeaker_def
      split: option.splits)

lemma keeps_emit:
  "(\<And>x s. keeps s (state_of (h x s))) \<Longrightarrow> keeps s (state_of (emit h xs s))"
proof (induction xs arbitrary: s)
  case Nil
  show ?case by (simp add: keeps_refl)
next
  case (Cons x xs)
  have k: "keeps s (state_of (h x s))" using Cons.prems by blast
  show ?case
  proof (cases "h x s")
    case (Done s')
    then have "keeps s' (state_of (emit h xs s'))" using Cons by blast
    with k Done show ?thesis using keeps_trans by fastforce
  next
    case (Raised e s')
    with k show ?thesis by simp
  qed
qed

text \<open>
  The setup of a join, up to the registration of the listeners that end the session,
  leaves them alone; a setup that completes adds the \<^verbatim>\<open>disconnected\<close> listener with
  the first video track of the local participant, and resolves nothing.
\<close>

lemma connected_setup:
  assumes "videoTracks rm = lt # lts"
  shows "\<exists>s4. keeps s s4
       \<and> connected r rm s =
           (case setCurrentActiveParticipant (Some r) s4 of
              Raised e s5 \<Rightarrow> Raised e s5
            | Done s5 \<Rightarrow> Done (register_teardown r lt
                             (s5\<lparr>on_dominantSpeakerChanged := on_dominantSpeakerChanged s5 @ [r],
                                  on_leave_click := on_leave_click s5 @ [r]\<rparr>)))"
proof -
  define s1 where "s1 = s\<lparr>window_room := Some r, calls := WindowRoom (Some r) # calls s\<rparr>"
  define s2 where "s2 = attachVideoTrack lt (localParticipant rm) s1"
  define s3 where "s3 = fold (\<lambda>(p, ps). participantConnected p ps) (participants rm) s2"
  define s4 where "s4 = s3\<lparr>on_participantConnected := on_participantConnected s3 @ [r],
                          on_participantDisconnected := on_participantDisconnected s3 @ [r]\<rparr>"
  have "keeps s s1" by (simp add: keeps_def fun_eq_iff local_participants_def s1_def)
  moreover have "keeps s1 s2"
    by (simp add: keeps_def fun_eq_iff local_participants_def s2_def attachVideoTrack_def)
  moreover have "keeps s2 s3" unfolding s3_def
    by (rule keeps_fold) (auto simp add: keeps_participantConnected)
  moreover have "keeps s3 s4" by (simp add: keeps_def fun_eq_iff local_participants_def s4_def)
  ultimately have k: "keeps s s4" using keeps_trans by blast
  have c: "connected r rm s =
     (case setCurrentActiveParticipant (Some r) s4 of
        Raised e s5 \<Rightarrow> Raised e s5
      | Done s5 \<Rightarrow> Done (register_teardown r lt
                       (s5\<lparr>on_dominantSpeakerChanged := on_dominantSpeakerChanged s5 @ [r],
                            on_leave_click := on_leave_click s5 @ [r]\<rparr>)))"
    using assms by (simp add: connected_def s1_def s2_def s3_def s4_def Let_def)
  from k c show ?thesis by blast
qed

lemma register_teardown_writes:
  "once_disconnected (register_teardown r lt s) = once_disconnected s @ [(r, lt)]"
  "platform (register_teardown r lt s) = platform s"
  "rooms (register_teardown r lt s) = rooms s"
  "calls (register_teardown r lt s) = calls s"
  by (simp_all add: register_teardown_def Let_def)

lemma connected_raised:
  assumes "raised (connected r rm s)"
  shows "keeps s (state_of (connected r rm s))"
proof (cases "videoTracks rm")
  case Nil
  then show ?thesis by (simp add: connected_def keeps_def fun_eq_iff local_participants_def)
next
  case (Cons lt lts)
  from connected_setup [OF Cons, of s r] obtain s4 where k: "keeps s s4"
    and c: "connected r rm s =
           (case setCurrentActiveParticipant (Some r) s4 of
              Raised e s5 \<Rightarrow> Raised e s5
            | Done s5 \<Rightarrow> Done (register_teardown r lt
                             (s5\<lparr>on_dominantSpeakerChanged := on_dominantSpeakerChanged s5 @ [r],
                                  on_leave_click := on_leave_click s5 @ [r]\<rparr>)))"
    by blast
  show ?thesis
  proof (cases "setCurrentActiveParticipant (Some r) s4")
    case (Done s5)
    then show ?thesis using assms c by simp
  next
    case (Raised e s5)
    then have "keeps s4 s5" using keeps_setCurrentActiveParticipant [of s4 "Some r"] by simp
    with k have "keeps s s5" by (rule keeps_trans)
    then show ?thesis using c Raised by simp
  qed
qed

lemma connected_done:
  assumes "connected r rm s = Done s'"
  shows "once_disconnected s' = once_disconnected s @ [(r, hd (videoTracks rm))]
       \<and> platform s' = platform s \<and> local_participants s' = local_participants s
       \<and> resolves (calls s') = resolves (calls s)"
proof (cases "videoTracks rm")
  case Nil
  then show ?thesis using assms by (simp add: connected_def)
next
  case (Cons lt lts)
  from connected_setup [OF Cons, of s r] obtain s4 where k: "keeps s s4"
    and c: "connected r rm s =
           (case setCurrentActiveParticipant (Some r) s4 of
              Raised e s5 \<Rightarrow> Raised e s5
            | Done s5 \<Rightarrow> Done (register_teardown r lt
                             (s5\<lparr>on_dominantSpeakerChanged := on_dominantSpeakerChanged s5 @ [r],
                                  on_leave_click := on_leave_click s5 @ [r]\<rparr>)))"
    by blast
  show ?thesis
  proof (cases "setCurrentActiveParticipant (Some r) s4")
    case (Raised e s5)
    then show ?thesis using assms c by simp
  next
    case (Done s5)
    then have "keeps s4 s5" using keeps_setCurrentActiveParticipant [of s4 "Some r"] by simp
    with k have k5: "keeps s s5" by (rule keeps_trans)
    have "s' = register_teardown r lt
                 (s5\<lparr>on_dominantSpeakerChanged := on_dominantSpeakerChanged s5 @ [r],
                      on_leave_click := on_leave_click s5 @ [r]\<rparr>)"
      using assms c Done by simp
    then show ?thesis
      using k5 Cons
      by (simp add: register_teardown_writes keeps_def fun_eq_iff local_participants_def)
  qed
qed

lemma awaits_refl: "awaits r s s"
  by (simp add: awaits_def)

lemma awaits_trans: "awaits r s s' \<Longrightarrow> awaits r s' s'' \<Longrightarrow> awaits r s s''"
  by (simp add: awaits_def)

lemma keeps_awaits: "keeps s s' \<Longrightarrow> awaits r s s'"
  by (simp add: keeps_def awaits_def)

lemma joinRoom_awaits:
  assumes "r' \<noteq> r"
  shows "awaits r s (state_of (joinRoom (ConnectResolved r' rm) s))"
proof -
  let ?s = "s\<lparr>rooms := (rooms s)(r' \<mapsto> rm)\<rparr>"
  have a0: "awaits r s ?s"
    using assms by (simp add: awaits_def local_participants_def)
  have "awaits r ?s (state_of (connected r' rm ?s))"
  proof (cases "connected r' rm ?s")
    case (Raised e s')
    then have "keeps ?s s'" using connected_raised [of r' rm ?s] by simp
    then show ?thesis using Raised by (simp add: keeps_awaits)
  next
    case (Done s')
    from connected_done [OF this] assms show ?thesis
      using Done by (simp add: awaits_def)
  qed
  with a0 show ?thesis
    using awaits_trans by (simp add: joinRoom_def)
qed

lemma quiet_step:
  "before_end r e \<Longrightarrow> awaits r s (state_of (step e s))"
proof (cases e)
  case (JoinRoom c)
  assume b: "before_end r e"
  show ?thesis
  proof (cases c)
    case ConnectRejected
    then show ?thesis using JoinRoom by (simp add: joinRoom_def awaits_refl)
  next
    case (ConnectResolved r' rm)
    then have "r' \<noteq> r" using b JoinRoom by simp
    from joinRoom_awaits [OF this] show ?thesis using JoinRoom ConnectResolved by simp
  qed
next
  case (ParticipantConnected r' p ps)
  have "keeps s (state_of (emit (\<lambda>_ s'. Done (participantConnected p ps s'))
       (filter (\<lambda>x. x = r') (on_participantConnected s)) s))"
    by (rule keeps_emit) (simp add: keeps_participantConnected)
  then show ?thesis using ParticipantConnected by (simp add: keeps_awaits)
next
  case (ParticipantDisconnected r' p)
  have "keeps s (state_of (emit (\<lambda>x. participantDisconnected_handler x p)
       (filter (\<lambda>x. x = r') (on_participantDisconnected s)) s))"
    by (rule keeps_emit) (rule keeps_participantDisconnected_handler)
  then show ?thesis using ParticipantDisconnected by (simp add: keeps_awaits)
next
  case (DominantSpeakerChanged r' d)
  have "keeps (set_dominantSpeaker r' d s) (state_of (emit dominantSpeakerChanged_handler
       (filter (\<lambda>x. x = r') (on_dominantSpeakerChanged s)) (set_dominantSpeaker r' d s)))"
    by (rule keeps_emit) (rule keeps_dominantSpeakerChanged_handler)
  with keeps_set_dominantSpeaker [of s r' d]
  have "keeps s (state_of (step e s))"
    using DominantSpeakerChanged keeps_trans by simp
  then show ?thesis by (rule keeps_awaits)
next
  case (TrackPublished p P)
  have "keeps s (state_of (emit (\<lambda>p' s'. Done (trackPublished P p' s'))
       (filter (\<lambda>p'. p' = p) (on_trackPublished s)) s))"
    by (rule keeps_emit) (simp add: keeps_trackPublished)
  then show ?thesis using TrackPublished by (simp add: keeps_awaits)
next
  case (Subscribed P t)
  let ?s = "s\<lparr>subscriptions := (P, t) # unsubscribed P (subscriptions s)\<rparr>"
  have "keeps ?s (state_of (emit (\<lambda>p s'. Done (attachTrack t p s'))
       (listeners_of P (on_subscription s)) ?s))"
    by (rule keeps_emit) (simp add: keeps_attachTrack)
  moreover have "keeps s ?s" by (simp add: keeps_def fun_eq_iff local_participants_def)
  ultimately have "keeps s (state_of (step e s))"
    using Subscribed keeps_trans by simp
  then show ?thesis by (rule keeps_awaits)
next
  case (Unsubscribed P t)
  let ?s = "s\<lparr>subscriptions := unsubscribed P (subscriptions s)\<rparr>"
  have "keeps ?s (state_of (emit (detachTrack t) (listeners_of P (on_subscription s)) ?s))"
    by (rule keeps_emit) (rule keeps_detachTrack)
  moreover have "keeps s ?s" by (simp add: keeps_def fun_eq_iff local_participants_def)
  ultimately have "keeps s (state_of (step e s))"
    using Unsubscribed keeps_trans by simp
  then show ?thesis by (rule keeps_awaits)
next
  case (Click p)
  then show ?thesis
    using keeps_container_click [of s p] by (simp add: keeps_awaits awaits_refl)
next
  case (VisibilityChange h)
  have "keeps s (state_of (emit (visibilitychange_handler h) (on_visibilitychange s) s))"
    by (rule keeps_emit) (rule keeps_visibilitychange_handler)
  then show ?thesis using VisibilityChange by (simp add: keeps_awaits)
qed simp_all

lemma quiet_run:
  "list_all (before_end r) es \<Longrightarrow> awaits r s (run es s)"
proof (induction es arbitrary: s)
  case Nil
  show ?case by (simp add: awaits_refl)
next
  case (Cons e es)
  then have "awaits r s (state_of (step e s))"
    and "awaits r (state_of (step e s)) (run es (state_of (step e s)))"
    using quiet_step by simp_all
  then show ?case using awaits_trans by (simp del: step.simps)
qed

lemma run_append: "run (es @ es') s = run es' (run es s)"
  by (induction es arbitrary: s) simp_all

lemma emit_disconnected_single:
  assumes "filter (\<lambda>(r', lt). r' = r) (once_disconnected s) = [(r, lt)]"
    and "rooms s r = Some rm" and "accepts s (localParticipant rm)"
  shows "calls (state_of (emit_disconnected r s))
           = Resolve r # WindowRoom None # ActiveVideoSrc None # Detach lt # calls s"
proof -
  obtain s' where d: "detachTrack lt (localParticipant rm) s = Done s'"
    using detachTrack_accepted [OF assms(3)] by blast
  have c: "calls s' = Detach lt # calls s"
    using detachTrack_calls [of lt "localParticipant rm" s] d by simp
  show ?thesis
    using assms(1,2) d c
    by (simp add: emit_disconnected_def disconnected_handler_def detachTrack_once Let_def)
qed

text \<open>
  Claim C7, amended. When the setup after \<^verbatim>\<open>connect\<close> completes, the promise that
  \<^verbatim>\<open>joinRoom\<close> returned stays pending through every run of signals that holds no
  teardown trigger and no further join with the same room object. When the room
  object had no \<^verbatim>\<open>disconnected\<close> listener before and jQuery accepts the selector
  spliced from the identity of the local participant, the \<^verbatim>\<open>disconnected\<close> signal of
  the room then fulfils the promise, with \<^verbatim>\<open>resolve()\<close> called right after the handler
  has detached the preview of the session, the first video track of the local
  participant, cleared the active video and cleared \<^verbatim>\<open>window.room\<close>.
\<close>

theorem join_promise_pending_until_disconnected:
  assumes "\<not> raised (joinRoom (ConnectResolved r rm) s)"
    and "r \<notin> set (resolves (calls s))"
    and "list_all (before_end r) es"
  shows "join_promise r (joinRoom (ConnectResolved r rm) s) es = Pending
       \<and> (r \<notin> fst ` set (once_disconnected s) \<and> accepts s (localParticipant rm) \<longrightarrow>
            join_promise r (joinRoom (ConnectResolved r rm) s) (es @ [RoomDisconnected r])
              = Fulfilled
          \<and> calls (run (es @ [RoomDisconnected r]) (state_of (joinRoom (ConnectResolved r rm) s)))
              = Resolve r # WindowRoom None # ActiveVideoSrc None # Detach (hd (videoTracks rm))
                # calls (run es (state_of (joinRoom (ConnectResolved r rm) s))))"
proof -
  let ?s0 = "s\<lparr>rooms := (rooms s)(r \<mapsto> rm)\<rparr>"
  obtain s1 where j: "joinRoom (ConnectResolved r rm) s = Done s1"
    using assms(1) by (cases "joinRoom (ConnectResolved r rm) s") simp_all
  then have "connected r rm ?s0 = Done s1" by (simp add: joinRoom_def)
  from connected_done [OF this]
  have o1: "once_disconnected s1 = once_disconnected s @ [(r, hd (videoTracks rm))]"
    and p1: "platform s1 = platform s"
    and l1: "local_participants s1 r = Some (localParticipant rm)"
    and r1: "resolves (calls s1) = resolves (calls s)"
    by (simp_all add: local_participants_def)
  define s2 where "s2 = run es s1"
  have w: "awaits r s1 s2" unfolding s2_def by (rule quiet_run [OF assms(3)])
  have pending: "r \<notin> set (resolves (calls s2))"
    using w r1 assms(2) by (simp add: awaits_def)
  have fulfilled: "calls (run (es @ [RoomDisconnected r]) s1)
        = Resolve r # WindowRoom None # ActiveVideoSrc None # Detach (hd (videoTracks rm)) # calls s2"
    if n: "r \<notin> fst ` set (once_disconnected s)" and a: "accepts s (localParticipant rm)"
  proof -
    have "filter (\<lambda>(r', lt). r' = r) (once_disconnected s) = []"
      using n by (auto simp add: filter_empty_conv image_iff)
    then have f: "filter (\<lambda>(r', lt). r' = r) (once_disconnected s2) = [(r, hd (videoTracks rm))]"
      using w o1 by (simp add: awaits_def)
    have "local_participants s2 r = Some (localParticipant rm)"
      using w l1 by (simp add: awaits_def)
    then obtain rm2 where rm2: "rooms s2 r = Some rm2"
      and lp: "localParticipant rm2 = localParticipant rm"
      by (auto simp add: local_participants_def)
    have "platform s2 = platform s" using w p1 by (simp add: awaits_def)
    then have a2: "accepts s2 (localParticipant rm2)"
      using a lp by (simp add: accepts_def)
    from emit_disconnected_single [OF f rm2 a2] show ?thesis
      by (simp add: run_append s2_def)
  qed
  show ?thesis
    using pending fulfilled unfolding s2_def
    by (simp add: join_promise_def j)
qed

theorem join_promise_pending_until_disconnected_witness:
  "\<not> raised (joinRoom (ConnectResolved 0 with_alice) (initial desktop))
   \<and> list_all (before_end 0)
        [Subscribed 1 alice_video, Click alice, DominantSpeakerChanged 0 (Some alice),
         JoinRoom (ConnectResolved 1 audio_only), VisibilityChange True]
   \<and> accepts (initial desktop) (localParticipant with_alice)
   \<and> join_promise 0 (joinRoom (ConnectResolved 0 with_alice) (initial desktop))
        [Subscribed 1 alice_video, Click alice, DominantSpeakerChanged 0 (Some alice),
         JoinRoom (ConnectResolved 1 audio_only), VisibilityChange True] = Pending
   \<and> join_promise 0 (joinRoom (ConnectResolved 0 with_alice) (initial desktop))
        ([Subscribed 1 alice_video, Click alice, DominantSpeakerChanged 0 (Some alice),
          JoinRoom (ConnectResolved 1 audio_only), VisibilityChange True]
         @ [RoomDisconnected 0]) = Fulfilled
   \<and> calls (run ([Subscribed 1 alice_video, Click alice, DominantSpeakerChanged 0 (Some alice),
                   JoinRoom (ConnectResolved 1 audio_only), VisibilityChange True]
                  @ [RoomDisconnected 0])
              (state_of (joinRoom (ConnectResolved 0 with_alice) (initial desktop))))
       = Resolve 0 # WindowRoom None # ActiveVideoSrc None # Detach camera
         # calls (run [Subscribed 1 alice_video, Click alice, DominantSpeakerChanged 0 (Some alice),
                       JoinRoom (ConnectResolved 1 audio_only), VisibilityChange True]
                  (state_of (joinRoom (ConnectResolved 0 with_alice) (initial desktop))))"
proof -
  have h1: "\<not> raised (joinRoom (ConnectResolved 0 with_alice) (initial desktop))" by code_simp
  have h2: "0 \<notin> set (resolves (calls (initial desktop)))" by (simp add: initial_def)
  have h3: "list_all (before_end 0)
        [Subscribed 1 alice_video, Click alice, DominantSpeakerChanged 0 (Some alice),
         JoinRoom (ConnectResolved 1 audio_only), VisibilityChange True]" by code_simp
  have h4: "0 \<notin> fst ` set (once_disconnected (initial desktop))" by (simp add: initial_def)
  have h5: "accepts (initial desktop) (localParticipant with_alice)" by code_simp
  have h6: "hd (videoTracks with_alice) = camera" by (simp add: with_alice_def)
  from join_promise_pending_until_disconnected [OF h1 h2 h3] h4 h5 h6 h1 h3 show ?thesis
    by simp
qed

text \<open>
  When the setup throws, the promise is rejected at once: the connection succeeded, no
  \<^verbatim>\<open>disconnected\<close> signal was given and no teardown ran. So it is with no local video
  track; with a local identity that the markup and the selector read differently, so
  that no container is found for the active participant; and with a local identity
  that holds a double quote.
\<close>

theorem join_promise_counterexample:
  "join_promise 0 (joinRoom (ConnectResolved 0 audio_only) (initial desktop)) [] = Rejected TypeError
   \<and> once_disconnected (state_of (joinRoom (ConnectResolved 0 audio_only) (initial desktop))) = []
   \<and> resolves (calls (state_of (joinRoom (ConnectResolved 0 audio_only) (initial desktop)))) = []
   \<and> join_promise 0 (joinRoom (ConnectResolved 0 amp_alone) (initial desktop)) [] = Rejected TypeError
   \<and> once_disconnected (state_of (joinRoom (ConnectResolved 0 amp_alone) (initial desktop))) = []
   \<and> join_promise 0 (joinRoom (ConnectResolved 0 quoted_alone) (initial desktop)) []
       = Rejected SelectorError
   \<and> once_disconnected (state_of (joinRoom (ConnectResolved 0 quoted_alone) (initial desktop))) = []"
  by code_simp

section \<open>A capture that fails\<close>

text \<open>
  Claim C8. When the capture fails, the promise of \<^verbatim>\<open>applyInputDevice\<close> is rejected
  with the capture error and the module's state is as before: \<^verbatim>\<open>localTracks\<close> is
  not written and no track is stopped, so a track cached for the kind stays cached and
  capturing.
\<close>

theorem capture_failure_keeps_cache:
  "applyInputDevice k CaptureRejected m = Raised CaptureError m
   \<and> localTracks (state_of (applyInputDevice k CaptureRejected m)) = localTracks m
   \<and> stopped (state_of (applyInputDevice k CaptureRejected m)) = stopped m
   \<and> media_step (CaptureFailed k) m = m"
  by (simp add: applyInputDevice_def)

section \<open>Live captures in the selection flow\<close>

lemma held_step:
  assumes "capture_ok m e" and "awaited_kinds m"
    and "\<And>t. live m t \<Longrightarrow> held m t"
    and "live (media_step e m) t"
  shows "held (media_step e m) t"
proof (cases e)
  case (CaptureStarted k u)
  show ?thesis
  proof (cases "t = u")
    case True
    then show ?thesis using CaptureStarted assms(1) by (simp add: held_def capture_started_def)
  next
    case False
    then have "live m t" using assms(4) CaptureStarted by (simp add: live_def capture_started_def)
    then have "held m t" by (rule assms(3))
    then show ?thesis using CaptureStarted by (auto simp add: held_def capture_started_def)
  qed
next
  case (CaptureDelivered k u)
  show ?thesis
  proof (cases "(k, u) \<in> set (awaiting m)")
    case False
    then show ?thesis using CaptureDelivered assms(3,4) by simp
  next
    case True
    then have ku: "kind u = k" using assms(2) by (auto simp add: awaited_kinds_def list_all_iff)
    have step: "media_step e m = applyInputDevice_then k u (m\<lparr>awaiting := remove1 (k, u) (awaiting m)\<rparr>)"
      using True CaptureDelivered by simp
    show ?thesis
    proof (cases "t = u")
      case True
      then show ?thesis using ku
        by (simp add: step held_def applyInputDevice_then_def Let_def stop_def split: option.splits)
    next
      case False
      have l: "live m t" using assms(4)
        by (auto simp add: step live_def applyInputDevice_then_def Let_def stop_def split: option.splits)
      have ns: "localTracks m k \<noteq> Some t" using assms(4)
        by (auto simp add: step live_def applyInputDevice_then_def Let_def stop_def split: option.splits)
      from assms(3) [OF l] have "held m t" .
      then show ?thesis
      proof (unfold held_def, elim disjE)
        assume c: "localTracks m (kind t) = Some t"
        with ns have "kind t \<noteq> k" by auto
        with c show "localTracks (media_step e m) (kind t) = Some t \<or> (kind t, t) \<in> set (awaiting (media_step e m))"
          by (simp add: step applyInputDevice_then_def Let_def stop_def split: option.splits)
      next
        assume "(kind t, t) \<in> set (awaiting m)"
        with False show "localTracks (media_step e m) (kind t) = Some t \<or> (kind t, t) \<in> set (awaiting (media_step e m))"
          by (auto simp add: step applyInputDevice_then_def Let_def stop_def split: option.splits)
      qed
    qed
  qed
next
  case (CaptureFailed k)
  then show ?thesis using assms(3,4) by simp
next
  case (ModalHidden k)
  have l: "live m t" using assms(4) ModalHidden
    by (auto simp add: live_def onHide_def stop_def split: option.splits)
  have ns: "localTracks m k \<noteq> Some t" using assms(4) ModalHidden
    by (auto simp add: live_def onHide_def stop_def split: option.splits)
  from assms(3) [OF l] have "held m t" .
  then show ?thesis using ns ModalHidden
    by (auto simp add: held_def onHide_def stop_def split: option.splits)
qed

lemma awaited_kinds_step:
  "capture_ok m e \<Longrightarrow> awaited_kinds m \<Longrightarrow> awaited_kinds (media_step e m)"
proof (cases e)
  case (CaptureDelivered k u)
  assume "awaited_kinds m"
  then have "awaited_kinds (m\<lparr>awaiting := remove1 (k, u) (awaiting m)\<rparr>)"
    using set_remove1_subset [of "(k, u)" "awaiting m"]
    by (auto simp add: awaited_kinds_def list_all_iff)
  then show ?thesis using CaptureDelivered \<open>awaited_kinds m\<close>
    by (simp add: awaited_kinds_def applyInputDevice_then_def Let_def stop_def split: option.splits)
qed (auto simp add: awaited_kinds_def capture_started_def onHide_def stop_def split: option.splits)

lemma held_run:
  "media_feasible es m \<Longrightarrow> awaited_kinds m \<Longrightarrow> (\<And>t. live m t \<Longrightarrow> held m t) \<Longrightarrow>
     live (media_run es m) t \<Longrightarrow> held (media_run es m) t"
proof (induction es arbitrary: m)
  case Nil
  then show ?case by simp
next
  case (Cons e es)
  have ok: "capture_ok m e" and f: "media_feasible es (media_step e m)" using Cons.prems(1) by simp_all
  have a: "awaited_kinds (media_step e m)" using awaited_kinds_step [OF ok Cons.prems(2)] .
  have h: "\<And>u. live (media_step e m) u \<Longrightarrow> held (media_step e m) u"
    using held_step [OF ok Cons.prems(2)] Cons.prems(3) by blast
  from Cons.IH [OF f a h] Cons.prems(4) show ?case by simp
qed

text \<open>
  Claim C10, amended. In every run of the selection flow in which the provider hands
  out each track once and of the kind asked for, a live (unstopped) capture track is
  the cached track of its kind or a new track whose callback has not run yet. The
  callback of \<^verbatim>\<open>applyInputDevice\<close> stops the cached track of the kind before it caches
  the new one, and the closing of the modal stops the cached track and clears the
  cache.
\<close>

theorem live_captures_are_held:
  assumes "media_feasible es media_initial"
  shows "(live (media_run es media_initial) t \<longrightarrow> held (media_run es media_initial) t)
       \<and> (localTracks m k = Some old \<longrightarrow>
            old \<in> set (stopped (applyInputDevice_then k u m))
          \<and> localTracks (applyInputDevice_then k u m) k = Some u)
       \<and> (localTracks m k = Some old \<longrightarrow>
            old \<in> set (stopped (onHide k m)) \<and> localTracks (onHide k m) k = None)"
proof -
  have "awaited_kinds media_initial" by (simp add: awaited_kinds_def media_initial_def)
  moreover have "\<And>t. live media_initial t \<Longrightarrow> held media_initial t"
    by (simp add: live_def media_initial_def)
  ultimately have "live (media_run es media_initial) t \<longrightarrow> held (media_run es media_initial) t"
    using held_run [OF assms] by blast
  then show ?thesis
    by (simp add: applyInputDevice_then_def onHide_def stop_def Let_def)
qed

theorem live_captures_are_held_witness:
  "media_feasible [CaptureStarted Video camera, CaptureDelivered Video camera,
                   CaptureStarted Video second_camera, CaptureDelivered Video second_camera]
     media_initial
   \<and> live (media_run [CaptureStarted Video camera, CaptureDelivered Video camera,
                      CaptureStarted Video second_camera, CaptureDelivered Video second_camera]
            media_initial) second_camera
   \<and> held (media_run [CaptureStarted Video camera, CaptureDelivered Video camera,
                      CaptureStarted Video second_camera, CaptureDelivered Video second_camera]
            media_initial) second_camera
   \<and> localTracks switching Video = Some camera
   \<and> camera \<in> set (stopped (applyInputDevice_then Video second_camera switching))
   \<and> localTracks (applyInputDevice_then Video second_camera switching) Video = Some second_camera
   \<and> camera \<in> set (stopped (onHide Video switching))
   \<and> localTracks (onHide Video switching) Video = None"
proof -
  have h1: "media_feasible [CaptureStarted Video camera, CaptureDelivered Video camera,
                   CaptureStarted Video second_camera, CaptureDelivered Video second_camera]
     media_initial" by code_simp
  have h2: "live (media_run [CaptureStarted Video camera, CaptureDelivered Video camera,
                      CaptureStarted Video second_camera, CaptureDelivered Video second_camera]
            media_initial) second_camera" by code_simp
  have h3: "localTracks switching Video = Some camera" by code_simp
  from live_captures_are_held [OF h1, of second_camera switching Video camera second_camera] h1 h2 h3
  show ?thesis by blast
qed

text \<open>
  The new track is created before its predecessor is stopped: while the second camera
  waits for its callback, both cameras capture.
\<close>

theorem two_live_cameras_counterexample:
  "live switching camera \<and> live switching second_camera
   \<and> kind camera = Video \<and> kind second_camera = Video \<and> camera \<noteq> second_camera
   \<and> localTracks switching Video = Some camera \<and> camera \<notin> set (stopped switching)"
  by code_simp


section \<open>Automatic resolution\<close>

lemma joinRoom_resolves:
  assumes "videoTracks rm \<noteq> []"
  shows "(accepts_active s \<longrightarrow>
            activeParticipant (state_of (joinRoom (ConnectResolved r rm) s))
              = Some (case dominantSpeaker rm of Some d \<Rightarrow> d | None \<Rightarrow> localParticipant rm))
       \<and> isActiveParticipantPinned (state_of (joinRoom (ConnectResolved r rm) s))
           = isActiveParticipantPinned s"
proof -
  obtain lt lts where v: "videoTracks rm = lt # lts" using assms by (cases "videoTracks rm") auto
  define s0 where "s0 = s\<lparr>rooms := (rooms s)(r \<mapsto> rm)\<rparr>"
  define s1 where "s1 = s0\<lparr>window_room := Some r, calls := WindowRoom (Some r) # calls s0\<rparr>"
  define s2 where "s2 = attachVideoTrack lt (localParticipant rm) s1"
  define s3 where "s3 = fold (\<lambda>(p, ps). participantConnected p ps) (participants rm) s2"
  define s4 where "s4 = s3\<lparr>on_participantConnected := on_participantConnected s3 @ [r],
                          on_participantDisconnected := on_participantDisconnected s3 @ [r]\<rparr>"
  have "same_selection s1 s2" by (simp add: same_selection_def s2_def attachVideoTrack_def)
  moreover have "same_selection s2 s3" unfolding s3_def
    by (rule same_selection_fold) (auto simp add: same_selection_participantConnected)
  moreover have "same_selection s3 s4" by (simp add: same_selection_def s4_def)
  ultimately have ss: "same_selection s1 s4" using same_selection_trans by blast
  then have r4: "rooms s4 r = Some rm" and p4: "isActiveParticipantPinned s4 = isActiveParticipantPinned s"
    and a4: "activeParticipant s4 = activeParticipant s"
    by (simp_all add: same_selection_def s1_def s0_def)
  have "keeps s0 s1" by (simp add: keeps_def fun_eq_iff local_participants_def s1_def)
  moreover have "keeps s1 s2"
    by (simp add: keeps_def fun_eq_iff local_participants_def s2_def attachVideoTrack_def)
  moreover have "keeps s2 s3" unfolding s3_def
    by (rule keeps_fold) (auto simp add: keeps_participantConnected)
  moreover have "keeps s3 s4" by (simp add: keeps_def fun_eq_iff local_participants_def s4_def)
  ultimately have "keeps s0 s4" using keeps_trans by blast
  then have pl: "platform s4 = platform s" by (simp add: keeps_def s0_def)
  have ac: "accepts_active s4 = accepts_active s"
    using a4 pl by (rule accepts_active_same)
  have c: "joinRoom (ConnectResolved r rm) s =
     (case setCurrentActiveParticipant (Some r) s4 of
        Raised e s5 \<Rightarrow> Raised e s5
      | Done s5 \<Rightarrow> Done (register_teardown r lt
                       (s5\<lparr>on_dominantSpeakerChanged := on_dominantSpeakerChanged s5 @ [r],
                            on_leave_click := on_leave_click s5 @ [r]\<rparr>)))"
    using v by (simp add: joinRoom_def connected_def s0_def s1_def s2_def s3_def s4_def Let_def)
  have a: "accepts_active s \<Longrightarrow>
      activeParticipant (state_of (setCurrentActiveParticipant (Some r) s4))
        = Some (case dominantSpeaker rm of Some d \<Rightarrow> d | None \<Rightarrow> localParticipant rm)"
    using setCurrentActiveParticipant_active [OF r4] ac by simp
  have p: "isActiveParticipantPinned (state_of (setCurrentActiveParticipant (Some r) s4)) = isActiveParticipantPinned s"
    using setCurrentActiveParticipant_pinned [of "Some r" s4] p4 by simp
  show ?thesis
    using a p unfolding c
    by (cases "setCurrentActiveParticipant (Some r) s4") (simp_all add: register_teardown_def Let_def)
qed

lemma setCurrentActiveParticipant_rooms:
  "rooms (state_of (setCurrentActiveParticipant ro s)) = rooms s"
  by (simp add: setCurrentActiveParticipant_def setActiveParticipant_rooms split: option.splits)

lemma setActiveParticipant_done_accepts:
  "setActiveParticipant p s = Done s' \<Longrightarrow> accepts_active s'"
  by (auto simp add: setActiveParticipant_def Let_def accepts_active_def accepts_def
      split: option.splits)

lemma setCurrentActiveParticipant_done_accepts:
  "setCurrentActiveParticipant ro s = Done s' \<Longrightarrow> accepts_active s'"
  using setActiveParticipant_done_accepts
  by (auto simp add: setCurrentActiveParticipant_def split: option.splits)

lemma emit_dominantSpeakerChanged_unpinned:
  "rs \<noteq> [] \<Longrightarrow> \<forall>x \<in> set rs. x = r \<Longrightarrow> rooms s r = Some rm \<Longrightarrow> \<not> isActiveParticipantPinned s \<Longrightarrow>
     accepts_active s \<Longrightarrow>
     activeParticipant (state_of (emit dominantSpeakerChanged_handler rs s))
       = Some (case dominantSpeaker rm of Some d \<Rightarrow> d | None \<Rightarrow> localParticipant rm)
   \<and> \<not> isActiveParticipantPinned (state_of (emit dominantSpeakerChanged_handler rs s))"
proof (induction rs arbitrary: s)
  case Nil
  then show ?case by simp
next
  case (Cons x rs)
  have x: "x = r" using Cons.prems(2) by simp
  let ?h = "setCurrentActiveParticipant (Some r) s"
  have h: "dominantSpeakerChanged_handler x s = ?h"
    using Cons.prems(4) x by (simp add: dominantSpeakerChanged_handler_def)
  have a: "activeParticipant (state_of ?h)
        = Some (case dominantSpeaker rm of Some d \<Rightarrow> d | None \<Rightarrow> localParticipant rm)"
    and p: "\<not> isActiveParticipantPinned (state_of ?h)"
    and r: "rooms (state_of ?h) r = Some rm"
    using Cons.prems(3,4,5)
    by (simp_all add: setCurrentActiveParticipant_active setCurrentActiveParticipant_pinned
        setCurrentActiveParticipant_rooms)
  show ?case
  proof (cases ?h)
    case (Raised e s')
    then show ?thesis using a p h by simp
  next
    case (Done s')
    show ?thesis
    proof (cases "rs = []")
      case True
      then show ?thesis using a p h Done by simp
    next
      case False
      have "accepts_active s'" using setCurrentActiveParticipant_done_accepts [OF Done] .
      from Cons.IH [OF False, of s'] Cons.prems(2) r p Done this
      show ?thesis using h by simp
    qed
  qed
qed

text \<open>
  Automatic resolution. The setup of a join whose local participant has a video track
  leaves the pinned flag as it found it and, when jQuery accepts the selector spliced
  from the identity of the participant active until then, sets the active participant
  to the room's dominant speaker, or to the local participant when there is none. A
  \<^verbatim>\<open>dominantSpeakerChanged\<close> signal handled while nothing is pinned does the same with
  the new dominant speaker.
\<close>

theorem automatic_resolution:
  "(videoTracks rm \<noteq> [] \<and> accepts_active s \<longrightarrow>
      activeParticipant (state_of (joinRoom (ConnectResolved r rm) s))
        = Some (case dominantSpeaker rm of Some p \<Rightarrow> p | None \<Rightarrow> localParticipant rm)
    \<and> isActiveParticipantPinned (state_of (joinRoom (ConnectResolved r rm) s))
        = isActiveParticipantPinned s)
   \<and> (\<not> isActiveParticipantPinned s \<and> accepts_active s \<and> rooms s r = Some rm
        \<and> r \<in> set (on_dominantSpeakerChanged s) \<longrightarrow>
      activeParticipant (state_of (step (DominantSpeakerChanged r d) s))
        = Some (case d of Some p \<Rightarrow> p | None \<Rightarrow> localParticipant rm)
    \<and> \<not> isActiveParticipantPinned (state_of (step (DominantSpeakerChanged r d) s)))"
proof (intro conjI impI)
  assume "videoTracks rm \<noteq> [] \<and> accepts_active s"
  then show "activeParticipant (state_of (joinRoom (ConnectResolved r rm) s))
        = Some (case dominantSpeaker rm of Some p \<Rightarrow> p | None \<Rightarrow> localParticipant rm)"
    and "isActiveParticipantPinned (state_of (joinRoom (ConnectResolved r rm) s)) = isActiveParticipantPinned s"
    using joinRoom_resolves [of rm s r] by simp_all
next
  assume a: "\<not> isActiveParticipantPinned s \<and> accepts_active s \<and> rooms s r = Some rm
     \<and> r \<in> set (on_dominantSpeakerChanged s)"
  let ?s = "set_dominantSpeaker r d s"
  let ?rs = "filter (\<lambda>r'. r' = r) (on_dominantSpeakerChanged s)"
  have 1: "?rs \<noteq> []" using a filter_same_member [of r "on_dominantSpeakerChanged s"] by auto
  have 2: "\<forall>x \<in> set ?rs. x = r" by simp
  have 3: "rooms ?s r = Some (rm\<lparr>dominantSpeaker := d\<rparr>)" using a by (simp add: set_dominantSpeaker_def)
  have 4: "\<not> isActiveParticipantPinned ?s" using a by (simp add: set_dominantSpeaker_pinned)
  have 5: "accepts_active ?s"
    using a accepts_active_same [of ?s s]
    by (simp add: set_dominantSpeaker_def)
  have 6: "(case dominantSpeaker (rm\<lparr>dominantSpeaker := d\<rparr>) of
              Some p \<Rightarrow> p | None \<Rightarrow> localParticipant (rm\<lparr>dominantSpeaker := d\<rparr>))
         = (case d of Some p \<Rightarrow> p | None \<Rightarrow> localParticipant rm)"
    by (cases d) simp_all
  from emit_dominantSpeakerChanged_unpinned [OF 1 2 3 4 5] 6
  show "activeParticipant (state_of (step (DominantSpeakerChanged r d) s))
        = Some (case d of Some p \<Rightarrow> p | None \<Rightarrow> localParticipant rm)"
    and "\<not> isActiveParticipantPinned (state_of (step (DominantSpeakerChanged r d) s))"
    by simp_all
qed

theorem automatic_resolution_witness:
  "videoTracks bob_speaks \<noteq> []
   \<and> accepts_active (run [Subscribed 1 alice_video, Subscribed 2 bob_video] (initial desktop))
   \<and> activeParticipant
       (state_of (joinRoom (ConnectResolved 0 bob_speaks)
          (run [Subscribed 1 alice_video, Subscribed 2 bob_video] (initial desktop)))) = Some bob
   \<and> \<not> isActiveParticipantPinned in_call \<and> accepts_active in_call
   \<and> rooms in_call 0 = Some with_alice
   \<and> 0 \<in> set (on_dominantSpeakerChanged in_call)
   \<and> activeParticipant (state_of (step (DominantSpeakerChanged 0 (Some alice)) in_call))
       = Some alice
   \<and> activeParticipant (state_of (step (DominantSpeakerChanged 0 None) in_call)) = Some me"
proof -
  have h1: "videoTracks bob_speaks \<noteq> []" by (simp add: bob_speaks_def)
  have h2: "\<not> isActiveParticipantPinned in_call" by code_simp
  have h3: "rooms in_call 0 = Some with_alice" by code_simp
  have h4: "0 \<in> set (on_dominantSpeakerChanged in_call)" by code_simp
  have h5: "dominantSpeaker bob_speaks = Some bob" by (simp add: bob_speaks_def)
  have h6: "localParticipant with_alice = me" by (simp add: with_alice_def)
  have h7: "accepts_active (run [Subscribed 1 alice_video, Subscribed 2 bob_video] (initial desktop))"
    by code_simp
  have h8: "accepts_active in_call" by code_simp
  from automatic_resolution [of bob_speaks
      "run [Subscribed 1 alice_video, Subscribed 2 bob_video] (initial desktop)" 0] h1 h5 h7
  have a: "activeParticipant
       (state_of (joinRoom (ConnectResolved 0 bob_speaks)
          (run [Subscribed 1 alice_video, Subscribed 2 bob_video] (initial desktop)))) = Some bob"
    by simp
  from automatic_resolution [of with_alice in_call 0 "Some alice"] h2 h3 h4 h8
  have b: "activeParticipant (state_of (step (DominantSpeakerChanged 0 (Some alice)) in_call))
       = Some alice" by simp
  from automatic_resolution [of with_alice in_call 0 None] h2 h3 h4 h6 h8
  have c: "activeParticipant (state_of (step (DominantSpeakerChanged 0 None) in_call)) = Some me"
    by simp
  from h1 h2 h3 h4 h7 h8 a b c show ?thesis by blast
qed

text \<open>
  Claim C4 at a second session. The first join, alone, leaves the local participant
  active and nothing pinned. After a click on the own preview and a leave, the pinned
  flag is still true, and the second join, alone again, leaves the local participant
  active with the pinned flag true.
\<close>

theorem rejoin_keeps_the_pin:
  "activeParticipant first_session = Some me \<and> \<not> isActiveParticipantPinned first_session
   \<and> activeParticipant rejoined = Some me \<and> isActiveParticipantPinned rejoined
   \<and> window_room rejoined = Some 1 \<and> once_disconnected rejoined = [(1, camera)]"
  by code_simp

section \<open>Attach and detach calls come in pairs\<close>

lemma alternates_counts:
  "alternates cs t \<Longrightarrow>
     count_list cs (Attach t) = count_list cs (Detach t) + (if attached cs t then 1 else 0)"
proof (induction cs)
  case Nil
  then show ?case by simp
next
  case (Cons c cs)
  then show ?case by (cases c) (auto split: if_splits)
qed

lemma leaked_previews_fields:
  "on_participantConnected s' = on_participantConnected s \<Longrightarrow>
   on_dominantSpeakerChanged s' = on_dominantSpeakerChanged s \<Longrightarrow>
   rooms s' = rooms s \<Longrightarrow> leaked_previews s' = leaked_previews s"
  by (simp add: leaked_previews_def local_videoTracks_def)

lemma undisturbedI:
  assumes "on_trackPublished s' = on_trackPublished s"
    and "on_participantConnected s' = on_participantConnected s"
    and "on_dominantSpeakerChanged s' = on_dominantSpeakerChanged s"
    and "on_subscription s' = on_subscription s"
    and "subscriptions s' = subscriptions s"
    and "once_disconnected s' = once_disconnected s"
    and "rooms s' = rooms s"
    and "attached (calls s') = attached (calls s)"
    and "alternates (calls s') = alternates (calls s)"
  shows "undisturbed s s'"
proof -
  have "local_videoTracks s' = local_videoTracks s"
    using assms(7) by (simp add: fun_eq_iff local_videoTracks_def)
  with assms show ?thesis by (simp add: undisturbed_def)
qed

lemma undisturbed_refl: "undisturbed s s"
  by (simp add: undisturbed_def)

lemma undisturbed_trans: "undisturbed s s' \<Longrightarrow> undisturbed s' s'' \<Longrightarrow> undisturbed s s''"
  by (simp add: undisturbed_def)

lemma undisturbed_lists_ok: "undisturbed s s' \<Longrightarrow> lists_ok s \<Longrightarrow> lists_ok s'"
  by (simp add: undisturbed_def lists_ok_def)

lemma undisturbed_shown: "undisturbed s s' \<Longrightarrow> shown X s \<Longrightarrow> shown X s'"
  by (simp add: undisturbed_def shown_def bound_tracks_def registered_def)

lemma undisturbed_leaked: "undisturbed s s' \<Longrightarrow> leaked_previews s' = leaked_previews s"
  by (simp add: undisturbed_def leaked_previews_def)

lemma undisturbed_ok:
  assumes "undisturbed s s'" and "lists_ok s \<and> shown (set (leaked_previews s)) s"
  shows "lists_ok s' \<and> shown (set (leaked_previews s')) s'"
  using assms undisturbed_lists_ok [OF assms(1)] undisturbed_shown [OF assms(1)]
    undisturbed_leaked [OF assms(1)]
  by simp

lemma same_key_same_value:
  "distinct (map fst xs) \<Longrightarrow> (a, b) \<in> set xs \<Longrightarrow> (a, c) \<in> set xs \<Longrightarrow> b = c"
  by (rule eq_key_imp_eq_value)

lemma same_value_same_key:
  "distinct (map snd xs) \<Longrightarrow> (a, c) \<in> set xs \<Longrightarrow> (b, c) \<in> set xs \<Longrightarrow> a = b"
proof (induction xs)
  case Nil
  then show ?case by simp
next
  case (Cons x xs)
  then show ?case by (cases x) (auto simp add: image_iff)
qed

lemma set_bound_tracks:
  "set (bound_tracks s)
     = {t. \<exists>P. (P, t) \<in> set (subscriptions s) \<and> P \<in> registered s}
       \<union> snd ` set (once_disconnected s)"
  by (auto simp add: bound_tracks_def image_iff)

lemma attachTrack_calls: "calls (attachTrack t p s) = Attach t # calls s"
  by (simp add: attachTrack_def attachAudioTrack_def attachVideoTrack_def split: kind.splits)

lemma attachTrack_lists:
  "on_trackPublished (attachTrack t p s) = on_trackPublished s"
  "on_participantConnected (attachTrack t p s) = on_participantConnected s"
  "on_dominantSpeakerChanged (attachTrack t p s) = on_dominantSpeakerChanged s"
  "on_subscription (attachTrack t p s) = on_subscription s"
  "subscriptions (attachTrack t p s) = subscriptions s"
  "once_disconnected (attachTrack t p s) = once_disconnected s"
  "rooms (attachTrack t p s) = rooms s"
  by (simp_all add: attachTrack_def attachAudioTrack_def attachVideoTrack_def split: kind.splits)

lemma detachTrack_lists:
  "on_trackPublished (state_of (detachTrack t p s)) = on_trackPublished s"
  "on_participantConnected (state_of (detachTrack t p s)) = on_participantConnected s"
  "on_dominantSpeakerChanged (state_of (detachTrack t p s)) = on_dominantSpeakerChanged s"
  "on_subscription (state_of (detachTrack t p s)) = on_subscription s"
  "subscriptions (state_of (detachTrack t p s)) = subscriptions s"
  "once_disconnected (state_of (detachTrack t p s)) = once_disconnected s"
  "rooms (state_of (detachTrack t p s)) = rooms s"
  by (simp_all add: detachTrack_def Let_def split: option.splits)

lemma registered_attachTrack: "registered (attachTrack t p s) = registered s"
  by (simp add: registered_def attachTrack_lists)

lemma registered_detachTrack: "registered (state_of (detachTrack t p s)) = registered s"
  by (simp add: registered_def detachTrack_lists)

lemma leaked_attachTrack: "leaked_previews (attachTrack t p s) = leaked_previews s"
  by (rule leaked_previews_fields) (simp_all add: attachTrack_lists)

lemma leaked_detachTrack: "leaked_previews (state_of (detachTrack t p s)) = leaked_previews s"
  by (rule leaked_previews_fields) (simp_all add: detachTrack_lists)

text \<open>A track that no subscription of a registered publication and no preview holds is not attached.\<close>

lemma unbound_not_attached:
  assumes "lists_ok s" and "shown X s" and "(P, t) \<in> set (subscriptions s)"
    and "P \<notin> registered s"
  shows "\<not> attached (calls s) t"
proof -
  have "t \<in> snd ` set (subscriptions s)" using assms(3) by (force simp add: image_iff)
  then have "t \<notin> X" and "t \<notin> snd ` set (once_disconnected s)"
    using assms(1,2) by (auto simp add: lists_ok_def shown_def)
  moreover have "\<not> (\<exists>P'. (P', t) \<in> set (subscriptions s) \<and> P' \<in> registered s)"
  proof
    assume "\<exists>P'. (P', t) \<in> set (subscriptions s) \<and> P' \<in> registered s"
    then obtain P' where p: "(P', t) \<in> set (subscriptions s)" and r: "P' \<in> registered s"
      by blast
    have "distinct (map snd (subscriptions s))" using assms(1) by (simp add: lists_ok_def)
    from same_value_same_key [OF this p assms(3)] r assms(4) show False by simp
  qed
  ultimately show ?thesis
    using assms(2) by (simp add: shown_def set_bound_tracks)
qed

lemma trackPublished_lists:
  "on_trackPublished (trackPublished P p s) = on_trackPublished s"
  "on_participantConnected (trackPublished P p s) = on_participantConnected s"
  "on_dominantSpeakerChanged (trackPublished P p s) = on_dominantSpeakerChanged s"
  "subscriptions (trackPublished P p s) = subscriptions s"
  "once_disconnected (trackPublished P p s) = once_disconnected s"
  "rooms (trackPublished P p s) = rooms s"
  "on_subscription (trackPublished P p s) = on_subscription s @ [(P, p)]"
  by (simp_all add: trackPublished_def Let_def attachTrack_lists split: option.splits)

lemma registered_trackPublished:
  "registered (trackPublished P p s) = insert P (registered s)"
  by (simp add: registered_def trackPublished_lists)

lemma trackPublished_lists_ok:
  "lists_ok s \<Longrightarrow> P \<notin> registered s \<Longrightarrow> lists_ok (trackPublished P p s)"
  by (simp add: lists_ok_def trackPublished_lists registered_def)

lemma trackPublished_shown:
  assumes "lists_ok s" and "shown X s" and "P \<notin> registered s"
  shows "shown X (trackPublished P p s)"
proof (cases "publication_track s P")
  case None
  then have "P \<notin> fst ` set (subscriptions s)"
    by (simp add: publication_track_def map_of_eq_None_iff)
  then have n: "\<And>t. (P, t) \<notin> set (subscriptions s)"
    by (force simp add: image_iff)
  have c: "calls (trackPublished P p s) = calls s"
    using None by (simp add: trackPublished_def)
  have "set (bound_tracks (trackPublished P p s)) = set (bound_tracks s)"
    unfolding set_bound_tracks trackPublished_lists registered_trackPublished
    using n by blast
  then show ?thesis
    using assms(2) unfolding shown_def c trackPublished_lists by blast
next
  case (Some t)
  then have m: "(P, t) \<in> set (subscriptions s)"
    by (simp add: publication_track_def map_of_SomeD)
  have dk: "distinct (map fst (subscriptions s))" using assms(1) by (simp add: lists_ok_def)
  have u: "\<And>t'. (P, t') \<in> set (subscriptions s) \<Longrightarrow> t' = t"
    by (rule same_key_same_value [OF dk _ m])
  have c: "calls (trackPublished P p s) = Attach t # calls s"
    using Some by (simp add: trackPublished_def attachTrack_calls Let_def)
  have b: "set (bound_tracks (trackPublished P p s)) = insert t (set (bound_tracks s))"
    unfolding set_bound_tracks trackPublished_lists registered_trackPublished
    using m u by blast
  have na: "\<not> attached (calls s) t"
    using unbound_not_attached [OF assms(1,2) m assms(3)] .
  have x: "X \<inter> snd ` set (subscriptions s) = {}" "X \<inter> snd ` set (once_disconnected s) = {}"
    and a: "\<And>u. attached (calls s) u \<longleftrightarrow> u \<in> set (bound_tracks s) \<or> u \<in> X"
    and l: "\<And>u. alternates (calls s) u"
    using assms(2) by (simp_all add: shown_def)
  have a': "\<forall>u. attached (calls (trackPublished P p s)) u
              \<longleftrightarrow> u \<in> set (bound_tracks (trackPublished P p s)) \<or> u \<in> X"
    unfolding c b using a by auto
  have l': "\<forall>u. alternates (calls (trackPublished P p s)) u"
    unfolding c using l na by simp
  show ?thesis
    unfolding shown_def
  proof (intro conjI)
    show "X \<inter> snd ` set (subscriptions (trackPublished P p s)) = {}"
      using x(1) by (simp only: trackPublished_lists)
    show "X \<inter> snd ` set (once_disconnected (trackPublished P p s)) = {}"
      using x(2) by (simp only: trackPublished_lists)
  qed (rule a', rule l')
qed

text \<open>Registering the publications of a participant, one after the other.\<close>

lemma fold_trackPublished:
  assumes "lists_ok s" and "shown X s" and "distinct ps" and "set ps \<inter> registered s = {}"
  shows "lists_ok (fold (\<lambda>P. trackPublished P p) ps s)
       \<and> shown X (fold (\<lambda>P. trackPublished P p) ps s)
       \<and> registered (fold (\<lambda>P. trackPublished P p) ps s) = registered s \<union> set ps
       \<and> on_trackPublished (fold (\<lambda>P. trackPublished P p) ps s) = on_trackPublished s
       \<and> on_participantConnected (fold (\<lambda>P. trackPublished P p) ps s) = on_participantConnected s
       \<and> on_dominantSpeakerChanged (fold (\<lambda>P. trackPublished P p) ps s)
           = on_dominantSpeakerChanged s
       \<and> subscriptions (fold (\<lambda>P. trackPublished P p) ps s) = subscriptions s
       \<and> once_disconnected (fold (\<lambda>P. trackPublished P p) ps s) = once_disconnected s
       \<and> rooms (fold (\<lambda>P. trackPublished P p) ps s) = rooms s"
  using assms
proof (induction ps arbitrary: s)
  case Nil
  then show ?case by simp
next
  case (Cons P ps)
  let ?s = "trackPublished P p s"
  have n: "P \<notin> registered s" using Cons.prems(4) by simp
  have 1: "lists_ok ?s" using trackPublished_lists_ok [OF Cons.prems(1) n] .
  have 2: "shown X ?s" using trackPublished_shown [OF Cons.prems(1,2) n] .
  have 3: "distinct ps" using Cons.prems(3) by simp
  have 4: "set ps \<inter> registered ?s = {}"
    using Cons.prems(3,4) by (auto simp add: registered_trackPublished)
  from Cons.IH [OF 1 2 3 4] show ?case
    by (simp add: registered_trackPublished trackPublished_lists)
qed

lemma participantConnected_ok:
  assumes "lists_ok s" and "shown X s" and "distinct ps" and "set ps \<inter> registered s = {}"
    and "p \<notin> set (on_trackPublished s)"
  shows "lists_ok (participantConnected p ps s)
       \<and> shown X (participantConnected p ps s)
       \<and> registered (participantConnected p ps s) = registered s \<union> set ps
       \<and> on_trackPublished (participantConnected p ps s) = on_trackPublished s @ [p]
       \<and> on_participantConnected (participantConnected p ps s) = on_participantConnected s
       \<and> on_dominantSpeakerChanged (participantConnected p ps s) = on_dominantSpeakerChanged s
       \<and> subscriptions (participantConnected p ps s) = subscriptions s
       \<and> once_disconnected (participantConnected p ps s) = once_disconnected s
       \<and> rooms (participantConnected p ps s) = rooms s"
proof -
  let ?s = "fold (\<lambda>P. trackPublished P p) ps s"
  from fold_trackPublished [OF assms(1-4), of p]
  have f1: "lists_ok ?s" and f2: "shown X ?s"
    and f3: "registered ?s = registered s \<union> set ps"
    and f4: "on_trackPublished ?s = on_trackPublished s"
    and f5: "on_participantConnected ?s = on_participantConnected s"
    and f9: "on_dominantSpeakerChanged ?s = on_dominantSpeakerChanged s"
    and f6: "subscriptions ?s = subscriptions s"
    and f7: "once_disconnected ?s = once_disconnected s"
    and f8: "rooms ?s = rooms s"
    by blast+
  have e: "participantConnected p ps s = ?s\<lparr>on_trackPublished := on_trackPublished ?s @ [p]\<rparr>"
    by (simp add: participantConnected_def Let_def)
  have l: "lists_ok (?s\<lparr>on_trackPublished := on_trackPublished ?s @ [p]\<rparr>)"
    using f1 f4 assms(5) by (simp add: lists_ok_def)
  have h: "shown X (?s\<lparr>on_trackPublished := on_trackPublished ?s @ [p]\<rparr>)"
    using f2 by (simp add: shown_def bound_tracks_def registered_def)
  have r: "registered (?s\<lparr>on_trackPublished := on_trackPublished ?s @ [p]\<rparr>) = registered s \<union> set ps"
    using f3 by (simp add: registered_def)
  show ?thesis
    unfolding e using l h r f4 f5 f6 f7 f8 f9 by simp
qed

text \<open>Calls other than attach and detach do not count.\<close>

lemma attached_other:
  "attached (ActiveVideoSrc x # cs) = attached cs"
  "attached (WindowRoom y # cs) = attached cs"
  "attached (Resolve r # cs) = attached cs"
  "attached (Disable t # cs) = attached cs"
  "attached (Enable t # cs) = attached cs"
  by (rule ext, simp)+

lemma alternates_other:
  "alternates (ActiveVideoSrc x # cs) = alternates cs"
  "alternates (WindowRoom y # cs) = alternates cs"
  "alternates (Resolve r # cs) = alternates cs"
  "alternates (Disable t # cs) = alternates cs"
  "alternates (Enable t # cs) = alternates cs"
  by (rule ext, simp)+

lemma undisturbed_setActiveParticipant: "undisturbed s (state_of (setActiveParticipant p s))"
  by (rule undisturbedI)
     (simp_all add: setActiveParticipant_def Let_def attached_other alternates_other
        split: option.splits)

lemma undisturbed_setCurrentActiveParticipant:
  "undisturbed s (state_of (setCurrentActiveParticipant ro s))"
  by (simp add: setCurrentActiveParticipant_def undisturbed_refl undisturbed_setActiveParticipant
      split: option.splits)

lemma undisturbed_flag: "undisturbed s (s\<lparr>isActiveParticipantPinned := b\<rparr>)"
  by (rule undisturbedI) simp_all

lemma undisturbed_container_click: "undisturbed s (state_of (container_click p s))"
  unfolding container_click_def
  using undisturbed_trans [OF undisturbed_flag undisturbed_setCurrentActiveParticipant]
        undisturbed_trans [OF undisturbed_flag undisturbed_setActiveParticipant]
  by simp

lemma undisturbed_participantDisconnected_handler:
  "undisturbed s (state_of (participantDisconnected_handler r p s))"
  unfolding participantDisconnected_handler_def
  using undisturbed_trans [OF undisturbed_flag undisturbed_setCurrentActiveParticipant]
  by (simp add: undisturbed_refl)

lemma undisturbed_dominantSpeakerChanged_handler:
  "undisturbed s (state_of (dominantSpeakerChanged_handler r s))"
  unfolding dominantSpeakerChanged_handler_def
  by (simp add: undisturbed_refl undisturbed_setCurrentActiveParticipant)

lemma undisturbed_visibilitychange_handler:
  "undisturbed s (state_of (visibilitychange_handler h lt s))"
  by (rule undisturbedI)
     (simp_all add: visibilitychange_handler_def attached_other alternates_other)

lemma undisturbed_set_dominantSpeaker: "undisturbed s (set_dominantSpeaker r d s)"
proof (cases "rooms s r")
  case None
  then show ?thesis by (simp add: set_dominantSpeaker_def undisturbed_refl)
next
  case (Some rm)
  then have "dom (rooms (set_dominantSpeaker r d s)) = dom (rooms s)"
    by (auto simp add: set_dominantSpeaker_def)
  moreover have "local_videoTracks (set_dominantSpeaker r d s) = local_videoTracks s"
    using Some by (auto simp add: fun_eq_iff local_videoTracks_def set_dominantSpeaker_def)
  ultimately show ?thesis
    using Some by (simp add: undisturbed_def set_dominantSpeaker_def)
qed

lemma undisturbed_emit:
  "(\<And>x s. undisturbed s (state_of (h x s))) \<Longrightarrow> undisturbed s (state_of (emit h xs s))"
proof (induction xs arbitrary: s)
  case Nil
  show ?case by (simp add: undisturbed_refl)
next
  case (Cons x xs)
  have k: "undisturbed s (state_of (h x s))" using Cons.prems by blast
  show ?case
  proof (cases "h x s")
    case (Done s')
    then have "undisturbed s' (state_of (emit h xs s'))" using Cons by blast
    with k Done show ?thesis using undisturbed_trans by fastforce
  next
    case (Raised e s')
    with k show ?thesis by simp
  qed
qed

text \<open>With every listener registered once, a signal reaches one listener or none.\<close>

lemma filter_once:
  "distinct xs \<Longrightarrow> filter (\<lambda>x. x = a) xs = (if a \<in> set xs then [a] else [])"
  by (induction xs) auto

lemma listeners_of_once:
  "distinct (map fst xs) \<Longrightarrow>
     listeners_of k xs = (case map_of xs k of None \<Rightarrow> [] | Some v \<Rightarrow> [v])"
proof (induction xs)
  case Nil
  then show ?case by (simp add: listeners_of_def)
next
  case (Cons x xs)
  obtain k' v' where x: "x = (k', v')" by (cases x)
  have d: "distinct (map fst xs)" and n: "k' \<notin> fst ` set xs" using Cons.prems x by simp_all
  show ?case
  proof (cases "k' = k")
    case True
    then have "map_of xs k = None" using n by (simp add: map_of_eq_None_iff)
    with Cons.IH [OF d] True x show ?thesis by (simp add: listeners_of_def)
  next
    case False
    with Cons.IH [OF d] x show ?thesis by (simp add: listeners_of_def)
  qed
qed

lemma map_of_registered:
  "(map_of (on_subscription s) P = None) = (P \<notin> registered s)"
  by (simp add: registered_def map_of_eq_None_iff)

lemma unsubscribed_absent:
  "P \<notin> fst ` set xs \<Longrightarrow> unsubscribed P xs = xs"
  by (induction xs) (auto simp add: unsubscribed_def)

lemma set_unsubscribed:
  "distinct (map fst xs) \<Longrightarrow> (P, t) \<in> set xs \<Longrightarrow> set (unsubscribed P xs) = set xs - {(P, t)}"
proof -
  assume d: "distinct (map fst xs)" and m: "(P, t) \<in> set xs"
  have "\<And>t'. (P, t') \<in> set xs \<Longrightarrow> t' = t"
    by (rule same_key_same_value [OF d _ m])
  then show ?thesis by (auto simp add: unsubscribed_def)
qed

lemma distinct_unsubscribed:
  "distinct (map fst xs) \<Longrightarrow> distinct (map fst (unsubscribed P xs))"
  "distinct (map snd xs) \<Longrightarrow> distinct (map snd (unsubscribed P xs))"
  by (simp_all add: unsubscribed_def distinct_map_filter)

text \<open>A publication is subscribed.\<close>

lemma subscribed_ok:
  assumes "lists_ok s" and "shown X s" and "provider_ok s (Subscribed P t)" and "t \<notin> X"
  shows "lists_ok (state_of (step (Subscribed P t) s))
       \<and> shown X (state_of (step (Subscribed P t) s))
       \<and> leaked_previews (state_of (step (Subscribed P t) s)) = leaked_previews s"
proof -
  have g: "P \<notin> fst ` set (subscriptions s)" "t \<notin> snd ` set (subscriptions s)"
    "t \<notin> snd ` set (once_disconnected s)"
    using assms(3) by simp_all
  define s1 where "s1 = s\<lparr>subscriptions := (P, t) # subscriptions s\<rparr>"
  have d: "distinct (map fst (on_subscription s))" using assms(1) by (simp add: lists_ok_def)
  have l1: "lists_ok s1"
    using assms(1) g by (simp add: lists_ok_def s1_def)
  have k1: "leaked_previews s1 = leaked_previews s"
    by (rule leaked_previews_fields) (simp_all add: s1_def)
  have x: "X \<inter> snd ` set (subscriptions s) = {}" "X \<inter> snd ` set (once_disconnected s) = {}"
    and a: "\<And>u. attached (calls s) u \<longleftrightarrow> u \<in> set (bound_tracks s) \<or> u \<in> X"
    and l: "\<And>u. alternates (calls s) u"
    using assms(2) by (simp_all add: shown_def)
  have x1: "X \<inter> snd ` set (subscriptions s1) = {}" "X \<inter> snd ` set (once_disconnected s1) = {}"
    using x assms(4) by (simp_all add: s1_def)
  have na: "\<not> attached (calls s) t"
    using g a assms(4) by (auto simp add: set_bound_tracks image_iff)
  show ?thesis
  proof (cases "map_of (on_subscription s) P")
    case None
    then have st: "step (Subscribed P t) s = Done s1"
      using g(1) by (simp add: s1_def listeners_of_once [OF d] unsubscribed_absent)
    have n: "P \<notin> registered s" using None by (simp add: map_of_registered)
    have b: "set (bound_tracks s1) = set (bound_tracks s)"
      unfolding set_bound_tracks using n by (auto simp add: s1_def registered_def)
    have a1: "\<forall>u. attached (calls s1) u \<longleftrightarrow> u \<in> set (bound_tracks s1) \<or> u \<in> X"
      unfolding b using a by (simp add: s1_def)
    have al1: "\<forall>u. alternates (calls s1) u"
      using l by (simp add: s1_def)
    have "shown X s1"
      unfolding shown_def
    proof (intro conjI)
      show "X \<inter> snd ` set (subscriptions s1) = {}" by (rule x1(1))
      show "X \<inter> snd ` set (once_disconnected s1) = {}" by (rule x1(2))
    qed (rule a1, rule al1)
    with l1 k1 show ?thesis unfolding st by simp
  next
    case (Some p)
    then have st: "step (Subscribed P t) s = Done (attachTrack t p s1)"
      using g(1) by (simp add: s1_def listeners_of_once [OF d] unsubscribed_absent)
    have r: "P \<in> registered s" using Some map_of_registered [of s P] by auto
    have l2: "lists_ok (attachTrack t p s1)"
      using l1 by (simp add: lists_ok_def attachTrack_lists)
    have k2: "leaked_previews (attachTrack t p s1) = leaked_previews s"
      using k1 by (simp add: leaked_attachTrack)
    have b: "set (bound_tracks (attachTrack t p s1)) = insert t (set (bound_tracks s))"
      unfolding set_bound_tracks attachTrack_lists registered_attachTrack
      using r by (auto simp add: s1_def registered_def)
    have c: "calls (attachTrack t p s1) = Attach t # calls s"
      by (simp add: attachTrack_calls s1_def)
    have a': "\<forall>u. attached (calls (attachTrack t p s1)) u
                \<longleftrightarrow> u \<in> set (bound_tracks (attachTrack t p s1)) \<or> u \<in> X"
      unfolding c b using a by auto
    have l': "\<forall>u. alternates (calls (attachTrack t p s1)) u"
      unfolding c using l na by simp
    have "shown X (attachTrack t p s1)"
      unfolding shown_def
    proof (intro conjI)
      show "X \<inter> snd ` set (subscriptions (attachTrack t p s1)) = {}"
        using x1(1) by (simp only: attachTrack_lists)
      show "X \<inter> snd ` set (once_disconnected (attachTrack t p s1)) = {}"
        using x1(2) by (simp only: attachTrack_lists)
    qed (rule a', rule l')
    with l2 k2 show ?thesis unfolding st by simp
  qed
qed

text \<open>A publication is unsubscribed.\<close>

lemma unsubscribed_ok:
  assumes "lists_ok s" and "shown X s" and "provider_ok s (Unsubscribed P t)"
  shows "lists_ok (state_of (step (Unsubscribed P t) s))
       \<and> shown X (state_of (step (Unsubscribed P t) s))
       \<and> leaked_previews (state_of (step (Unsubscribed P t) s)) = leaked_previews s"
proof -
  have m: "(P, t) \<in> set (subscriptions s)" using assms(3) by simp
  define s1 where "s1 = s\<lparr>subscriptions := unsubscribed P (subscriptions s)\<rparr>"
  have d: "distinct (map fst (on_subscription s))"
    and dk: "distinct (map fst (subscriptions s))" and dv: "distinct (map snd (subscriptions s))"
    and dj: "snd ` set (once_disconnected s) \<inter> snd ` set (subscriptions s) = {}"
    using assms(1) by (simp_all add: lists_ok_def)
  have su: "set (subscriptions s1) = set (subscriptions s) - {(P, t)}"
    using set_unsubscribed [OF dk m] by (simp add: s1_def)
  have l1: "lists_ok s1"
    using assms(1) su distinct_unsubscribed [of "subscriptions s" P]
    unfolding lists_ok_def by (auto simp add: s1_def)
  have k1: "leaked_previews s1 = leaked_previews s"
    by (rule leaked_previews_fields) (simp_all add: s1_def)
  have x: "X \<inter> snd ` set (subscriptions s) = {}" "X \<inter> snd ` set (once_disconnected s) = {}"
    and a: "\<And>u. attached (calls s) u \<longleftrightarrow> u \<in> set (bound_tracks s) \<or> u \<in> X"
    and l: "\<And>u. alternates (calls s) u"
    using assms(2) by (simp_all add: shown_def)
  have x1: "X \<inter> snd ` set (subscriptions s1) = {}" "X \<inter> snd ` set (once_disconnected s1) = {}"
    using x su by (auto simp add: s1_def)
  have only: "\<And>P'. (P', t) \<in> set (subscriptions s) \<Longrightarrow> P' = P"
    by (rule same_value_same_key [OF dv _ m])
  have no: "t \<notin> snd ` set (once_disconnected s)"
    using dj m by (force simp add: image_iff)
  have nx: "t \<notin> X"
    using x(1) m by (force simp add: image_iff)
  show ?thesis
  proof (cases "map_of (on_subscription s) P")
    case None
    then have st: "step (Unsubscribed P t) s = Done s1"
      by (simp add: s1_def listeners_of_once [OF d])
    have n: "P \<notin> registered s" using None by (simp add: map_of_registered)
    have b: "set (bound_tracks s1) = set (bound_tracks s)"
      unfolding set_bound_tracks su using n by (auto simp add: s1_def registered_def)
    have a1: "\<forall>u. attached (calls s1) u \<longleftrightarrow> u \<in> set (bound_tracks s1) \<or> u \<in> X"
      unfolding b using a by (simp add: s1_def)
    have al1: "\<forall>u. alternates (calls s1) u"
      using l by (simp add: s1_def)
    have "shown X s1"
      unfolding shown_def
    proof (intro conjI)
      show "X \<inter> snd ` set (subscriptions s1) = {}" by (rule x1(1))
      show "X \<inter> snd ` set (once_disconnected s1) = {}" by (rule x1(2))
    qed (rule a1, rule al1)
    with l1 k1 show ?thesis unfolding st by simp
  next
    case (Some p)
    define s2 where "s2 = state_of (detachTrack t p s1)"
    have st: "state_of (step (Unsubscribed P t) s) = s2"
      using Some unfolding s2_def
      by (cases "detachTrack t p s1") (simp_all add: s1_def listeners_of_once [OF d])
    have r: "P \<in> registered s" using Some map_of_registered [of s P] by auto
    have f2: "subscriptions s2 = subscriptions s1" "once_disconnected s2 = once_disconnected s1"
      "registered s2 = registered s1"
      by (simp_all add: s2_def detachTrack_lists registered_detachTrack)
    have l2: "lists_ok s2"
      using l1 by (simp add: lists_ok_def s2_def detachTrack_lists)
    have k2: "leaked_previews s2 = leaked_previews s"
      using k1 by (simp add: s2_def leaked_detachTrack)
    have rs: "registered s1 = registered s" by (simp add: registered_def s1_def)
    have os: "once_disconnected s1 = once_disconnected s" by (simp add: s1_def)
    have b: "set (bound_tracks s2) = set (bound_tracks s) - {t}"
      unfolding set_bound_tracks f2 su rs os
      using only no by blast
    have ta: "attached (calls s) t"
      using a m r by (auto simp add: set_bound_tracks)
    have c: "calls s2 = Detach t # calls s"
      by (simp add: s2_def detachTrack_calls s1_def)
    have a': "\<forall>u. attached (calls s2) u \<longleftrightarrow> u \<in> set (bound_tracks s2) \<or> u \<in> X"
      unfolding c b using a nx by auto
    have l': "\<forall>u. alternates (calls s2) u"
      unfolding c using l ta by simp
    have "shown X s2"
      unfolding shown_def
    proof (intro conjI)
      show "X \<inter> snd ` set (subscriptions s2) = {}" using x1(1) by (simp only: f2)
      show "X \<inter> snd ` set (once_disconnected s2) = {}" using x1(2) by (simp only: f2)
    qed (rule a', rule l')
    with l2 k2 show ?thesis unfolding st by simp
  qed
qed

text \<open>A publication or a participant is announced.\<close>

lemma trackPublished_event_ok:
  assumes "lists_ok s" and "shown X s" and "provider_ok s (TrackPublished p P)"
  shows "lists_ok (state_of (step (TrackPublished p P) s))
       \<and> shown X (state_of (step (TrackPublished p P) s))
       \<and> leaked_previews (state_of (step (TrackPublished p P) s)) = leaked_previews s"
proof -
  have n: "P \<notin> registered s" using assms(3) by simp
  have d: "distinct (on_trackPublished s)" using assms(1) by (simp add: lists_ok_def)
  have k: "leaked_previews (trackPublished P p s) = leaked_previews s"
    by (rule leaked_previews_fields) (simp_all add: trackPublished_lists)
  show ?thesis
    using assms(1,2) trackPublished_lists_ok [OF assms(1) n, of p]
      trackPublished_shown [OF assms(1,2) n, of p] k
    by (simp add: filter_once [OF d])
qed

lemma participantConnected_event_ok:
  assumes "lists_ok s" and "shown X s" and "provider_ok s (ParticipantConnected r p ps)"
  shows "lists_ok (state_of (step (ParticipantConnected r p ps) s))
       \<and> shown X (state_of (step (ParticipantConnected r p ps) s))
       \<and> leaked_previews (state_of (step (ParticipantConnected r p ps) s)) = leaked_previews s"
proof -
  have g: "distinct ps" "set ps \<inter> registered s = {}" "p \<notin> set (on_trackPublished s)"
    using assms(3) by (auto simp add: list_all_iff)
  have d: "distinct (on_participantConnected s)" using assms(1) by (simp add: lists_ok_def)
  from participantConnected_ok [OF assms(1,2) g]
  have p: "lists_ok (participantConnected p ps s)" "shown X (participantConnected p ps s)"
    and f: "on_participantConnected (participantConnected p ps s) = on_participantConnected s"
      "on_dominantSpeakerChanged (participantConnected p ps s) = on_dominantSpeakerChanged s"
      "rooms (participantConnected p ps s) = rooms s"
    by blast+
  have k: "leaked_previews (participantConnected p ps s) = leaked_previews s"
    by (rule leaked_previews_fields) (rule f)+
  show ?thesis
    using assms(1,2) p k by (simp add: filter_once [OF d])
qed

text \<open>A session ends.\<close>

lemma filter_key_once:
  "distinct (map fst xs) \<Longrightarrow>
     filter (\<lambda>(k', v). k' = k) xs = (case map_of xs k of None \<Rightarrow> [] | Some v \<Rightarrow> [(k, v)])"
proof (induction xs)
  case Nil
  then show ?case by simp
next
  case (Cons x xs)
  obtain k' v' where x: "x = (k', v')" by (cases x)
  have d: "distinct (map fst xs)" and n: "k' \<notin> fst ` set xs" using Cons.prems x by simp_all
  show ?case
  proof (cases "k' = k")
    case True
    then have "map_of xs k = None" using n by (simp add: map_of_eq_None_iff)
    with Cons.IH [OF d] True x show ?thesis by simp
  next
    case False
    with Cons.IH [OF d] x show ?thesis by simp
  qed
qed

lemma filter_other_keys:
  "k \<notin> fst ` set xs \<Longrightarrow> filter (\<lambda>(k', v). k' \<noteq> k) xs = xs"
  by (induction xs) auto

lemma set_filter_other_keys:
  "distinct (map fst xs) \<Longrightarrow> (k, v) \<in> set xs \<Longrightarrow>
     set (filter (\<lambda>(k', v). k' \<noteq> k) xs) = set xs - {(k, v)}"
proof -
  assume d: "distinct (map fst xs)" and m: "(k, v) \<in> set xs"
  have "\<And>v'. (k, v') \<in> set xs \<Longrightarrow> v' = v"
    by (rule same_key_same_value [OF d _ m])
  then show ?thesis by auto
qed

text \<open>
  The \<^verbatim>\<open>disconnected\<close> handler detaches the preview, whether or not it throws after
  that, and writes no list of listeners.
\<close>

lemma disconnected_handler_writes:
  assumes "rooms s r = Some rm"
  shows "attached (calls (state_of (disconnected_handler r lt s))) = attached (Detach lt # calls s)
       \<and> alternates (calls (state_of (disconnected_handler r lt s)))
           = alternates (Detach lt # calls s)
       \<and> on_trackPublished (state_of (disconnected_handler r lt s)) = on_trackPublished s
       \<and> on_participantConnected (state_of (disconnected_handler r lt s))
           = on_participantConnected s
       \<and> on_dominantSpeakerChanged (state_of (disconnected_handler r lt s))
           = on_dominantSpeakerChanged s
       \<and> on_subscription (state_of (disconnected_handler r lt s)) = on_subscription s
       \<and> subscriptions (state_of (disconnected_handler r lt s)) = subscriptions s
       \<and> once_disconnected (state_of (disconnected_handler r lt s)) = once_disconnected s
       \<and> rooms (state_of (disconnected_handler r lt s)) = rooms s"
proof (cases "detachTrack lt (localParticipant rm) s")
  case (Done s1)
  then have "s1 = state_of (detachTrack lt (localParticipant rm) s)" by simp
  then have "calls s1 = Detach lt # calls s" and "on_trackPublished s1 = on_trackPublished s"
    and "on_participantConnected s1 = on_participantConnected s"
    and "on_dominantSpeakerChanged s1 = on_dominantSpeakerChanged s"
    and "on_subscription s1 = on_subscription s" and "subscriptions s1 = subscriptions s"
    and "once_disconnected s1 = once_disconnected s" and "rooms s1 = rooms s"
    by (simp_all add: detachTrack_calls detachTrack_lists)
  then show ?thesis
    using assms Done
    by (simp add: disconnected_handler_def Let_def attached_other alternates_other)
next
  case (Raised e s1)
  then have "s1 = state_of (detachTrack lt (localParticipant rm) s)" by simp
  then have "calls s1 = Detach lt # calls s" and "on_trackPublished s1 = on_trackPublished s"
    and "on_participantConnected s1 = on_participantConnected s"
    and "on_dominantSpeakerChanged s1 = on_dominantSpeakerChanged s"
    and "on_subscription s1 = on_subscription s" and "subscriptions s1 = subscriptions s"
    and "once_disconnected s1 = once_disconnected s" and "rooms s1 = rooms s"
    by (simp_all add: detachTrack_calls detachTrack_lists)
  then show ?thesis
    using assms Raised by (simp add: disconnected_handler_def)
qed

lemma emit_disconnected_ok:
  assumes "lists_ok s" and "shown X s"
  shows "lists_ok (state_of (emit_disconnected r s))
       \<and> shown X (state_of (emit_disconnected r s))
       \<and> leaked_previews (state_of (emit_disconnected r s)) = leaked_previews s"
proof (cases "map_of (once_disconnected s) r")
  case None
  then have "r \<notin> fst ` set (once_disconnected s)" by (simp add: map_of_eq_None_iff)
  then have "filter (\<lambda>(r', lt). r' \<noteq> r) (once_disconnected s) = once_disconnected s"
    by (rule filter_other_keys)
  moreover have "filter (\<lambda>(r', lt). r' = r) (once_disconnected s) = []"
    using None filter_key_once [of "once_disconnected s" r] assms(1) by (simp add: lists_ok_def)
  ultimately have "emit_disconnected r s = Done s" by (simp add: emit_disconnected_def)
  then show ?thesis using assms by simp
next
  case (Some lt)
  then have m: "(r, lt) \<in> set (once_disconnected s)" by (rule map_of_SomeD)
  have dk: "distinct (map fst (once_disconnected s))"
    and dv: "distinct (map snd (once_disconnected s))"
    and dj: "snd ` set (once_disconnected s) \<inter> snd ` set (subscriptions s) = {}"
    and rs: "fst ` set (once_disconnected s) \<subseteq> dom (rooms s)"
    using assms(1) by (simp_all add: lists_ok_def)
  obtain rm where rm: "rooms s r = Some rm" using m rs by force
  let ?once = "filter (\<lambda>(r', lt). r' \<noteq> r) (once_disconnected s)"
  let ?s0 = "s\<lparr>once_disconnected := ?once\<rparr>"
  define s' where "s' = state_of (emit_disconnected r s)"
  have f: "filter (\<lambda>(r', lt). r' = r) (once_disconnected s) = [(r, lt)]"
    using Some filter_key_once [OF dk, of r] by simp
  have e: "s' = state_of (disconnected_handler r lt ?s0)"
    unfolding s'_def
    by (cases "disconnected_handler r lt ?s0") (simp_all add: emit_disconnected_def f)
  have r0: "rooms ?s0 r = Some rm" using rm by simp
  from disconnected_handler_writes [OF r0, of lt]
  have ca: "attached (calls s') = attached (Detach lt # calls s)"
    and cl: "alternates (calls s') = alternates (Detach lt # calls s)"
    and o: "once_disconnected s' = ?once"
    and same: "on_trackPublished s' = on_trackPublished s"
      "on_participantConnected s' = on_participantConnected s"
      "on_dominantSpeakerChanged s' = on_dominantSpeakerChanged s"
      "on_subscription s' = on_subscription s" "subscriptions s' = subscriptions s"
      "rooms s' = rooms s"
    unfolding e by simp_all
  have k: "leaked_previews s' = leaked_previews s"
    by (rule leaked_previews_fields) (rule same)+
  have so: "set (once_disconnected s') = set (once_disconnected s) - {(r, lt)}"
    unfolding o by (rule set_filter_other_keys [OF dk m])
  have d1: "distinct (map fst (once_disconnected s'))" "distinct (map snd (once_disconnected s'))"
    unfolding o using dk dv by (simp_all add: distinct_map_filter)
  have l': "lists_ok s'"
    using assms(1) d1 so unfolding lists_ok_def same by auto
  have x: "X \<inter> snd ` set (subscriptions s) = {}" "X \<inter> snd ` set (once_disconnected s) = {}"
    and a: "\<And>u. attached (calls s) u \<longleftrightarrow> u \<in> set (bound_tracks s) \<or> u \<in> X"
    and l: "\<And>u. alternates (calls s) u"
    using assms(2) by (simp_all add: shown_def)
  have only: "\<And>r'. (r', lt) \<in> set (once_disconnected s) \<Longrightarrow> r' = r"
    by (rule same_value_same_key [OF dv _ m])
  have ns: "lt \<notin> snd ` set (subscriptions s)"
    using dj m by (force simp add: image_iff)
  have nx: "lt \<notin> X"
    using x(2) m by (force simp add: image_iff)
  have rg: "registered s' = registered s" by (simp add: registered_def same)
  have b: "set (bound_tracks s') = set (bound_tracks s) - {lt}"
  proof -
    have "snd ` set (once_disconnected s') = snd ` set (once_disconnected s) - {lt}"
      unfolding so using only by (force simp add: image_iff)
    moreover have "lt \<notin> {t. \<exists>P. (P, t) \<in> set (subscriptions s) \<and> P \<in> registered s}"
      using ns by (force simp add: image_iff)
    ultimately show ?thesis
      unfolding set_bound_tracks same rg by blast
  qed
  have ta: "attached (calls s) lt"
    using a m by (force simp add: set_bound_tracks image_iff)
  have a': "\<forall>u. attached (calls s') u \<longleftrightarrow> u \<in> set (bound_tracks s') \<or> u \<in> X"
    unfolding ca b using a nx by auto
  have al': "\<forall>u. alternates (calls s') u"
    unfolding cl using l ta by simp
  have x': "X \<inter> snd ` set (subscriptions s') = {}" "X \<inter> snd ` set (once_disconnected s') = {}"
    using x so unfolding same by auto
  have "shown X s'"
    unfolding shown_def
  proof (intro conjI)
    show "X \<inter> snd ` set (subscriptions s') = {}" by (rule x'(1))
    show "X \<inter> snd ` set (once_disconnected s') = {}" by (rule x'(2))
  qed (rule a', rule al')
  with l' k show ?thesis unfolding s'_def by simp
qed

lemma room_disconnect_ok:
  "lists_ok s \<and> shown X s \<and> leaked_previews s = L \<Longrightarrow>
     lists_ok (state_of (room_disconnect r s)) \<and> shown X (state_of (room_disconnect r s))
     \<and> leaked_previews (state_of (room_disconnect r s)) = L"
  using emit_disconnected_ok [of s X r] by (simp add: room_disconnect_def)

lemma onLeave_ok:
  assumes "lists_ok s \<and> shown X s \<and> leaked_previews s = L"
  shows "lists_ok (state_of (onLeave r s)) \<and> shown X (state_of (onLeave r s))
       \<and> leaked_previews (state_of (onLeave r s)) = L"
proof -
  let ?s = "s\<lparr>on_leave_click := remove1 r (on_leave_click s)\<rparr>"
  have "lists_ok ?s" using assms by (simp add: lists_ok_def)
  moreover have "shown X ?s" using assms by (simp add: shown_def bound_tracks_def registered_def)
  moreover have "leaked_previews ?s = L"
    using assms leaked_previews_fields [of ?s s] by simp
  ultimately show ?thesis
    using emit_disconnected_ok [of ?s X r] by (simp add: onLeave_def room_disconnect_def)
qed

text \<open>A room is joined.\<close>

lemma fold_participantConnected_ok:
  assumes "lists_ok s" and "shown X s"
    and "distinct (concat (map snd parts))"
    and "set (concat (map snd parts)) \<inter> registered s = {}"
    and "distinct (map fst parts)"
    and "set (map fst parts) \<inter> set (on_trackPublished s) = {}"
  shows "lists_ok (fold (\<lambda>(p, ps). participantConnected p ps) parts s)
       \<and> shown X (fold (\<lambda>(p, ps). participantConnected p ps) parts s)
       \<and> on_participantConnected (fold (\<lambda>(p, ps). participantConnected p ps) parts s)
           = on_participantConnected s
       \<and> on_dominantSpeakerChanged (fold (\<lambda>(p, ps). participantConnected p ps) parts s)
           = on_dominantSpeakerChanged s
       \<and> subscriptions (fold (\<lambda>(p, ps). participantConnected p ps) parts s) = subscriptions s
       \<and> once_disconnected (fold (\<lambda>(p, ps). participantConnected p ps) parts s)
           = once_disconnected s
       \<and> rooms (fold (\<lambda>(p, ps). participantConnected p ps) parts s) = rooms s"
  using assms
proof (induction parts arbitrary: s)
  case Nil
  then show ?case by simp
next
  case (Cons x parts)
  obtain p ps where x: "x = (p, ps)" by (cases x)
  let ?s = "participantConnected p ps s"
  have a1: "distinct ps" and a2: "set ps \<inter> registered s = {}"
    and a3: "p \<notin> set (on_trackPublished s)"
    using Cons.prems(3,4,6) x by auto
  from participantConnected_ok [OF Cons.prems(1,2) a1 a2 a3]
  have f1: "lists_ok ?s" and f2: "shown X ?s"
    and f3: "registered ?s = registered s \<union> set ps"
    and f4: "on_trackPublished ?s = on_trackPublished s @ [p]"
    and f5: "on_participantConnected ?s = on_participantConnected s"
    and f9: "on_dominantSpeakerChanged ?s = on_dominantSpeakerChanged s"
    and f6: "subscriptions ?s = subscriptions s"
    and f7: "once_disconnected ?s = once_disconnected s"
    and f8: "rooms ?s = rooms s"
    by blast+
  have b3: "distinct (concat (map snd parts))" using Cons.prems(3) x by simp
  have b4: "set (concat (map snd parts)) \<inter> registered ?s = {}"
    unfolding f3 using Cons.prems(3,4) x by auto
  have b5: "distinct (map fst parts)" using Cons.prems(5) by simp
  have b6: "set (map fst parts) \<inter> set (on_trackPublished ?s) = {}"
    unfolding f4 using Cons.prems(5,6) x by auto
  from Cons.IH [OF f1 f2 b3 b4 b5 b6] show ?case
    by (simp add: x f5 f6 f7 f8 f9)
qed

text \<open>
  The previews left behind after a join of a new room object \<open>r\<close>: those there were,
  and the one of \<open>r\<close> unless its \<^verbatim>\<open>dominantSpeakerChanged\<close> listener got registered.
\<close>

lemma leaked_previews_other:
  assumes "on_participantConnected s' = on_participantConnected s"
    and "on_dominantSpeakerChanged s' = on_dominantSpeakerChanged s"
    and "rooms s' = (rooms s)(r \<mapsto> rm)"
    and "r \<notin> set (on_participantConnected s)"
  shows "leaked_previews s' = leaked_previews s"
proof -
  let ?rs = "filter (\<lambda>x. x \<notin> set (on_dominantSpeakerChanged s)) (on_participantConnected s)"
  have "map (\<lambda>x. take 1 (local_videoTracks s' x)) ?rs
      = map (\<lambda>x. take 1 (local_videoTracks s x)) ?rs"
    by (rule map_cong) (use assms(3,4) in \<open>auto simp add: local_videoTracks_def\<close>)
  then show ?thesis
    unfolding leaked_previews_def assms(1,2) by (rule arg_cong)
qed

lemma leaked_previews_joined:
  assumes "on_participantConnected s' = on_participantConnected s @ [r]"
    and "on_dominantSpeakerChanged s' = on_dominantSpeakerChanged s @ ds"
    and "set ds \<subseteq> {r}"
    and "rooms s' = (rooms s)(r \<mapsto> rm)"
    and "r \<notin> set (on_participantConnected s)"
    and "set (on_dominantSpeakerChanged s) \<subseteq> set (on_participantConnected s)"
  shows "leaked_previews s'
           = leaked_previews s @ (if r \<in> set ds then [] else take 1 (videoTracks rm))"
proof -
  let ?rs = "filter (\<lambda>x. x \<notin> set (on_dominantSpeakerChanged s)) (on_participantConnected s)"
  have 1: "filter (\<lambda>x. x \<notin> set (on_dominantSpeakerChanged s @ ds)) (on_participantConnected s)
      = ?rs"
    by (rule filter_cong) (use assms(3,5) in auto)
  have 3: "r \<notin> set (on_dominantSpeakerChanged s)" using assms(5,6) by auto
  have A: "filter (\<lambda>x. x \<notin> set (on_dominantSpeakerChanged s @ ds))
             (on_participantConnected s @ [r])
      = ?rs @ (if r \<in> set ds then [] else [r])"
    unfolding filter_append 1 using 3 by simp
  have 2: "map (\<lambda>x. take 1 (local_videoTracks s' x)) ?rs
      = map (\<lambda>x. take 1 (local_videoTracks s x)) ?rs"
    by (rule map_cong) (use assms(4,5) in \<open>auto simp add: local_videoTracks_def\<close>)
  then have C: "concat (map (\<lambda>x. take 1 (local_videoTracks s' x)) ?rs)
      = concat (map (\<lambda>x. take 1 (local_videoTracks s x)) ?rs)"
    by (rule arg_cong)
  have 4: "local_videoTracks s' r = videoTracks rm"
    using assms(4) by (simp add: local_videoTracks_def)
  show ?thesis
    unfolding leaked_previews_def assms(1,2) A
    by (cases "r \<in> set ds") (simp_all only: if_True if_False map_append concat_append
        append_Nil2 list.map concat.simps C 4)
qed

lemma joinRoom_ok:
  assumes "lists_ok s" and "shown (set (leaked_previews s)) s" and "provider_ok s (JoinRoom c)"
  shows "lists_ok (state_of (joinRoom c s))
       \<and> shown (set (leaked_previews (state_of (joinRoom c s)))) (state_of (joinRoom c s))"
proof (cases c)
  case ConnectRejected
  then show ?thesis using assms by (simp add: joinRoom_def)
next
  case (ConnectResolved r rm)
  define X where "X = set (leaked_previews s)"
  define s1 where
    "s1 = s\<lparr>rooms := (rooms s)(r \<mapsto> rm), window_room := Some r,
            calls := WindowRoom (Some r) # calls s\<rparr>"
  have g1: "r \<notin> set (on_participantConnected s)"
    using assms(3) ConnectResolved by simp
  have ds: "set (on_dominantSpeakerChanged s) \<subseteq> set (on_participantConnected s)"
    using assms(1) by (simp add: lists_ok_def)
  have hX: "shown X s" using assms(2) by (simp add: X_def)
  have l1: "lists_ok s1"
    using assms(1) by (auto simp add: lists_ok_def s1_def)
  have h1: "shown X s1"
    using hX
    by (simp add: shown_def s1_def bound_tracks_def registered_def attached_other alternates_other)
  have k1: "leaked_previews s1 = leaked_previews s"
    by (rule leaked_previews_other [where r = r and rm = rm]) (simp_all add: s1_def g1)
  show ?thesis
  proof (cases "videoTracks rm")
    case Nil
    then have "joinRoom c s = Raised TypeError s1"
      using ConnectResolved by (simp add: joinRoom_def connected_def s1_def)
    then show ?thesis using l1 h1 k1 by (simp add: X_def)
  next
    case (Cons lt lts)
    have g2: "distinct (map fst (participants rm))"
      and g3: "set (map fst (participants rm)) \<inter> set (on_trackPublished s) = {}"
      and g4: "distinct (concat (map snd (participants rm)))"
      and g5: "set (concat (map snd (participants rm))) \<inter> registered s = {}"
      and g6: "lt \<notin> snd ` set (subscriptions s)"
      and g7: "lt \<notin> snd ` set (once_disconnected s)"
      and g8: "lt \<notin> X"
      using assms(3) ConnectResolved Cons by (auto simp add: list_all_iff X_def)
    define s2 where "s2 = attachVideoTrack lt (localParticipant rm) s1"
    define s3 where "s3 = fold (\<lambda>(p, ps). participantConnected p ps) (participants rm) s2"
    define s4 where "s4 = s3\<lparr>on_participantConnected := on_participantConnected s3 @ [r],
                            on_participantDisconnected := on_participantDisconnected s3 @ [r]\<rparr>"
    have x: "X \<inter> snd ` set (subscriptions s) = {}" "X \<inter> snd ` set (once_disconnected s) = {}"
      and a: "\<And>u. attached (calls s) u \<longleftrightarrow> u \<in> set (bound_tracks s) \<or> u \<in> X"
      and al: "\<And>u. alternates (calls s) u"
      using hX by (simp_all add: shown_def)
    have na: "\<not> attached (calls s) lt"
      using a g6 g7 g8 by (auto simp add: set_bound_tracks image_iff)
    have l2: "lists_ok s2"
      using l1 by (simp add: lists_ok_def s2_def attachVideoTrack_def)
    have c2: "calls s2 = Attach lt # WindowRoom (Some r) # calls s"
      by (simp add: s2_def s1_def attachVideoTrack_def)
    have b2: "bound_tracks s2 = bound_tracks s"
      by (simp add: bound_tracks_def registered_def s2_def s1_def attachVideoTrack_def)
    have a2: "\<forall>u. attached (calls s2) u \<longleftrightarrow> u \<in> set (bound_tracks s2) \<or> u \<in> insert lt X"
      unfolding c2 b2 using a by auto
    have al2: "\<forall>u. alternates (calls s2) u"
      unfolding c2 using al na by simp
    have f2: "on_trackPublished s2 = on_trackPublished s" "registered s2 = registered s"
      "on_participantConnected s2 = on_participantConnected s"
      "on_dominantSpeakerChanged s2 = on_dominantSpeakerChanged s"
      "subscriptions s2 = subscriptions s" "once_disconnected s2 = once_disconnected s"
      "rooms s2 = (rooms s)(r \<mapsto> rm)"
      by (simp_all add: registered_def s2_def s1_def attachVideoTrack_def)
    have h2: "shown (insert lt X) s2"
      unfolding shown_def
    proof (intro conjI)
      show "insert lt X \<inter> snd ` set (subscriptions s2) = {}" using g6 x(1) by (simp add: f2)
      show "insert lt X \<inter> snd ` set (once_disconnected s2) = {}" using g7 x(2) by (simp add: f2)
    qed (rule a2, rule al2)
    from fold_participantConnected_ok [OF l2 h2 g4 _ g2, of ] g5 g3
    have l3: "lists_ok s3" and h3: "shown (insert lt X) s3"
      and f3: "on_participantConnected s3 = on_participantConnected s"
        "on_dominantSpeakerChanged s3 = on_dominantSpeakerChanged s"
        "subscriptions s3 = subscriptions s" "once_disconnected s3 = once_disconnected s"
        "rooms s3 = (rooms s)(r \<mapsto> rm)"
      unfolding s3_def f2 by simp_all
    have l4: "lists_ok s4"
      using l3 g1 unfolding lists_ok_def f3 by (auto simp add: s4_def f3)
    have h4: "shown (insert lt X) s4"
      using h3 by (simp add: shown_def s4_def bound_tracks_def registered_def)
    have f4: "on_participantConnected s4 = on_participantConnected s @ [r]"
        "on_dominantSpeakerChanged s4 = on_dominantSpeakerChanged s"
        "subscriptions s4 = subscriptions s" "once_disconnected s4 = once_disconnected s"
        "rooms s4 = (rooms s)(r \<mapsto> rm)"
      using f3 by (simp_all add: s4_def)
    have cn: "joinRoom c s =
       (case setCurrentActiveParticipant (Some r) s4 of
          Raised e s5 \<Rightarrow> Raised e s5
        | Done s5 \<Rightarrow> Done (register_teardown r lt
                         (s5\<lparr>on_dominantSpeakerChanged := on_dominantSpeakerChanged s5 @ [r],
                              on_leave_click := on_leave_click s5 @ [r]\<rparr>)))"
      using ConnectResolved Cons
      by (simp add: joinRoom_def connected_def s1_def s2_def s3_def s4_def Let_def)
    define s5 where "s5 = state_of (setCurrentActiveParticipant (Some r) s4)"
    have u5: "undisturbed s4 s5"
      unfolding s5_def by (rule undisturbed_setCurrentActiveParticipant)
    have l5: "lists_ok s5" using undisturbed_lists_ok [OF u5 l4] .
    have h5: "shown (insert lt X) s5" using undisturbed_shown [OF u5 h4] .
    have f5: "on_participantConnected s5 = on_participantConnected s @ [r]"
        "on_dominantSpeakerChanged s5 = on_dominantSpeakerChanged s"
        "subscriptions s5 = subscriptions s" "once_disconnected s5 = once_disconnected s"
      using u5 f4 by (simp_all add: undisturbed_def)
    have r5: "rooms s5 = (rooms s)(r \<mapsto> rm)"
      unfolding s5_def using f4(5) by (simp add: setCurrentActiveParticipant_rooms)
    show ?thesis
    proof (cases "setCurrentActiveParticipant (Some r) s4")
      case (Raised e s')
      then have j: "state_of (joinRoom c s) = s5" unfolding cn by (simp add: s5_def)
      have "leaked_previews s5 = leaked_previews s @ (if r \<in> set [] then [] else take 1 (videoTracks rm))"
        by (rule leaked_previews_joined [OF _ _ _ r5 g1 ds]) (simp_all add: f5)
      then have "set (leaked_previews s5) = insert lt X"
        using Cons by (simp add: X_def)
      with l5 h5 show ?thesis unfolding j by simp
    next
      case (Done s')
      then have d5: "setCurrentActiveParticipant (Some r) s4 = Done s5" by (simp add: s5_def)
      define s7 where
        "s7 = register_teardown r lt
                (s5\<lparr>on_dominantSpeakerChanged := on_dominantSpeakerChanged s5 @ [r],
                     on_leave_click := on_leave_click s5 @ [r]\<rparr>)"
      have j: "joinRoom c s = Done s7" unfolding cn d5 by (simp add: s7_def)
      have f7: "once_disconnected s7 = once_disconnected s5 @ [(r, lt)]"
        "on_trackPublished s7 = on_trackPublished s5"
        "on_participantConnected s7 = on_participantConnected s5"
        "on_dominantSpeakerChanged s7 = on_dominantSpeakerChanged s5 @ [r]"
        "on_subscription s7 = on_subscription s5" "subscriptions s7 = subscriptions s5"
        "rooms s7 = rooms s5" "calls s7 = calls s5"
        by (simp_all add: s7_def register_teardown_def Let_def)
      have nr: "r \<notin> fst ` set (once_disconnected s)"
        using assms(1) g1 by (auto simp add: lists_ok_def)
      have l7: "lists_ok s7"
        using l5 nr g6 g7 unfolding lists_ok_def f7 f5 r5 by auto
      have "leaked_previews s7 = leaked_previews s @ (if r \<in> set [r] then [] else take 1 (videoTracks rm))"
        by (rule leaked_previews_joined [OF _ _ _ _ g1 ds]) (simp_all add: f7 f5 r5)
      then have k7: "set (leaked_previews s7) = X" by (simp add: X_def)
      have b7: "set (bound_tracks s7) = insert lt (set (bound_tracks s5))"
        unfolding set_bound_tracks f7 by (auto simp add: registered_def f7)
      have x5: "insert lt X \<inter> snd ` set (subscriptions s5) = {}"
          "insert lt X \<inter> snd ` set (once_disconnected s5) = {}"
        and a5: "\<And>u. attached (calls s5) u \<longleftrightarrow> u \<in> set (bound_tracks s5) \<or> u \<in> insert lt X"
        and al5: "\<And>u. alternates (calls s5) u"
        using h5 by (simp_all add: shown_def)
      have a7: "\<forall>u. attached (calls s7) u \<longleftrightarrow> u \<in> set (bound_tracks s7) \<or> u \<in> X"
        unfolding f7 b7 using a5 by auto
      have al7: "\<forall>u. alternates (calls s7) u"
        unfolding f7 using al5 by simp
      have "shown X s7"
        unfolding shown_def
      proof (intro conjI)
        show "X \<inter> snd ` set (subscriptions s7) = {}" using x5(1) unfolding f7 by auto
        show "X \<inter> snd ` set (once_disconnected s7) = {}" using x5(2) g8 unfolding f7 by auto
      qed (rule a7, rule al7)
      with l7 k7 show ?thesis unfolding j by simp
    qed
  qed
qed

text \<open>Every signal the provider may give keeps the bookkeeping.\<close>

lemma step_ok:
  assumes "lists_ok s \<and> shown (set (leaked_previews s)) s" and "provider_ok s e"
  shows "lists_ok (state_of (step e s))
       \<and> shown (set (leaked_previews (state_of (step e s)))) (state_of (step e s))"
proof (cases e)
  case (JoinRoom c)
  then show ?thesis using joinRoom_ok [of s c] assms by simp
next
  case (ParticipantConnected r p ps)
  then show ?thesis
    using participantConnected_event_ok [of s "set (leaked_previews s)" r p ps] assms by simp
next
  case (ParticipantDisconnected r p)
  have "undisturbed s (state_of (emit (\<lambda>r'. participantDisconnected_handler r' p)
       (filter (\<lambda>r'. r' = r) (on_participantDisconnected s)) s))"
    by (rule undisturbed_emit) (rule undisturbed_participantDisconnected_handler)
  then have "undisturbed s (state_of (step e s))" using ParticipantDisconnected by simp
  from undisturbed_ok [OF this assms(1)] show ?thesis .
next
  case (DominantSpeakerChanged r d)
  have "undisturbed (set_dominantSpeaker r d s) (state_of (emit dominantSpeakerChanged_handler
       (filter (\<lambda>r'. r' = r) (on_dominantSpeakerChanged s)) (set_dominantSpeaker r d s)))"
    by (rule undisturbed_emit) (rule undisturbed_dominantSpeakerChanged_handler)
  with undisturbed_set_dominantSpeaker [of s r d]
  have "undisturbed s (state_of (step e s))"
    using DominantSpeakerChanged undisturbed_trans by simp
  from undisturbed_ok [OF this assms(1)] show ?thesis .
next
  case (RoomDisconnected r)
  then show ?thesis
    using emit_disconnected_ok [of s "set (leaked_previews s)" r] assms(1) by simp
next
  case (TrackPublished p P)
  then show ?thesis
    using trackPublished_event_ok [of s "set (leaked_previews s)" p P] assms by simp
next
  case (Subscribed P t)
  then have "t \<notin> set (leaked_previews s)" using assms(2) by simp
  then show ?thesis
    using Subscribed subscribed_ok [of s "set (leaked_previews s)" P t] assms by simp
next
  case (Unsubscribed P t)
  then show ?thesis
    using unsubscribed_ok [of s "set (leaked_previews s)" P t] assms by simp
next
  case (Click p)
  have "undisturbed s (state_of (step e s))"
    using Click undisturbed_container_click [of s p] by (simp add: undisturbed_refl)
  from undisturbed_ok [OF this assms(1)] show ?thesis .
next
  case LeaveClick
  have "lists_ok (state_of (emit onLeave (on_leave_click s) s))
      \<and> shown (set (leaked_previews s)) (state_of (emit onLeave (on_leave_click s) s))
      \<and> leaked_previews (state_of (emit onLeave (on_leave_click s) s)) = leaked_previews s"
    by (rule emit_preserves
         [where Q = "\<lambda>s'. lists_ok s' \<and> shown (set (leaked_previews s)) s'
                       \<and> leaked_previews s' = leaked_previews s"])
       (rule onLeave_ok, assumption, use assms(1) in simp)
  then show ?thesis using LeaveClick by simp
next
  case BeforeUnload
  have "lists_ok (state_of (emit room_disconnect (on_beforeunload s) s))
      \<and> shown (set (leaked_previews s)) (state_of (emit room_disconnect (on_beforeunload s) s))
      \<and> leaked_previews (state_of (emit room_disconnect (on_beforeunload s) s)) = leaked_previews s"
    by (rule emit_preserves
         [where Q = "\<lambda>s'. lists_ok s' \<and> shown (set (leaked_previews s)) s'
                       \<and> leaked_previews s' = leaked_previews s"])
       (rule room_disconnect_ok, assumption, use assms(1) in simp)
  then show ?thesis using BeforeUnload by simp
next
  case PageHide
  have "lists_ok (state_of (emit room_disconnect (on_pagehide s) s))
      \<and> shown (set (leaked_previews s)) (state_of (emit room_disconnect (on_pagehide s) s))
      \<and> leaked_previews (state_of (emit room_disconnect (on_pagehide s) s)) = leaked_previews s"
    by (rule emit_preserves
         [where Q = "\<lambda>s'. lists_ok s' \<and> shown (set (leaked_previews s)) s'
                       \<and> leaked_previews s' = leaked_previews s"])
       (rule room_disconnect_ok, assumption, use assms(1) in simp)
  then show ?thesis using PageHide by simp
next
  case (VisibilityChange h)
  have "undisturbed s (state_of (emit (visibilitychange_handler h) (on_visibilitychange s) s))"
    by (rule undisturbed_emit) (rule undisturbed_visibilitychange_handler)
  then have "undisturbed s (state_of (step e s))" using VisibilityChange by simp
  from undisturbed_ok [OF this assms(1)] show ?thesis .
qed

lemma run_ok:
  "feasible es s \<Longrightarrow> lists_ok s \<and> shown (set (leaked_previews s)) s \<Longrightarrow>
     lists_ok (run es s) \<and> shown (set (leaked_previews (run es s))) (run es s)"
proof (induction es arbitrary: s)
  case Nil
  then show ?case by simp
next
  case (Cons e es)
  have "lists_ok (state_of (step e s))
      \<and> shown (set (leaked_previews (state_of (step e s)))) (state_of (step e s))"
    using step_ok [OF Cons.prems(2)] Cons.prems(1) by simp
  with Cons.IH [of "state_of (step e s)"] Cons.prems(1) show ?case
    by (simp del: step.simps)
qed

lemma initial_ok: "lists_ok (initial b) \<and> shown (set (leaked_previews (initial b))) (initial b)"
  by (simp add: lists_ok_def shown_def initial_def bound_tracks_def leaked_previews_def)

text \<open>
  Claim C2, amended. In every run of signals from the loaded module in which the
  provider keeps to its protocol, and for every track: the attach and detach calls on
  it alternate, beginning with an attach, so it is never attached a second time
  without a detach in between; it has as many attach as detach calls, and one more
  exactly while it is attached; and it is attached exactly while it is bound, as the
  track of a subscribed publication that the module has registered or as the preview
  of a session whose teardown has not run, or is the preview left behind by a join
  whose setup threw. \<^verbatim>\<open>trackPublished\<close> on a publication that is already subscribed
  makes one attach call.
\<close>

theorem attach_detach_pairing:
  assumes "feasible es (initial b)"
  shows "alternates (calls (run es (initial b))) t
       \<and> count_list (calls (run es (initial b))) (Attach t)
           = count_list (calls (run es (initial b))) (Detach t)
             + (if attached (calls (run es (initial b))) t then 1 else 0)
       \<and> attached (calls (run es (initial b))) t
           = (t \<in> set (bound_tracks (run es (initial b)))
              \<or> t \<in> set (leaked_previews (run es (initial b))))
       \<and> (publication_track s P = Some u \<longrightarrow>
            calls (trackPublished P p s) = Attach u # calls s)"
proof -
  have "shown (set (leaked_previews (run es (initial b)))) (run es (initial b))"
    using run_ok [OF assms initial_ok] by simp
  then have a: "attached (calls (run es (initial b))) t
           = (t \<in> set (bound_tracks (run es (initial b)))
              \<or> t \<in> set (leaked_previews (run es (initial b))))"
    and l: "alternates (calls (run es (initial b))) t"
    by (simp_all add: shown_def)
  have "publication_track s P = Some u \<longrightarrow> calls (trackPublished P p s) = Attach u # calls s"
    by (simp add: trackPublished_def Let_def attachTrack_calls)
  with a l alternates_counts [OF l] show ?thesis by blast
qed

theorem attach_detach_pairing_witness:
  "feasible [Subscribed 1 alice_video, JoinRoom (ConnectResolved 0 with_alice),
             Unsubscribed 1 alice_video, RoomDisconnected 0] (initial desktop)
   \<and> count_list (calls (run [Subscribed 1 alice_video, JoinRoom (ConnectResolved 0 with_alice),
                              Unsubscribed 1 alice_video, RoomDisconnected 0] (initial desktop)))
        (Attach alice_video) = 1
   \<and> count_list (calls (run [Subscribed 1 alice_video, JoinRoom (ConnectResolved 0 with_alice),
                              Unsubscribed 1 alice_video, RoomDisconnected 0] (initial desktop)))
        (Detach alice_video) = 1
   \<and> alternates (calls (run [Subscribed 1 alice_video, JoinRoom (ConnectResolved 0 with_alice),
                              Unsubscribed 1 alice_video, RoomDisconnected 0] (initial desktop)))
        alice_video
   \<and> publication_track (run [Subscribed 1 alice_video] (initial desktop)) 1 = Some alice_video
   \<and> calls (trackPublished 1 alice (run [Subscribed 1 alice_video] (initial desktop)))
       = Attach alice_video # calls (run [Subscribed 1 alice_video] (initial desktop))"
proof -
  have h1: "feasible [Subscribed 1 alice_video, JoinRoom (ConnectResolved 0 with_alice),
      Unsubscribed 1 alice_video, RoomDisconnected 0] (initial desktop)"
    by code_simp
  have h2: "publication_track (run [Subscribed 1 alice_video] (initial desktop)) 1 = Some alice_video"
    by code_simp
  have h3: "count_list (calls (run [Subscribed 1 alice_video, JoinRoom (ConnectResolved 0 with_alice),
      Unsubscribed 1 alice_video, RoomDisconnected 0] (initial desktop))) (Attach alice_video) = 1"
    by code_simp
  have h4: "count_list (calls (run [Subscribed 1 alice_video, JoinRoom (ConnectResolved 0 with_alice),
      Unsubscribed 1 alice_video, RoomDisconnected 0] (initial desktop))) (Detach alice_video) = 1"
    by code_simp
  from attach_detach_pairing [OF h1, of alice_video
      "run [Subscribed 1 alice_video] (initial desktop)" 1 alice_video alice] h1 h2 h3 h4
  show ?thesis by blast
qed

text \<open>
  The teardown detaches the preview only: a video still subscribed when the session
  ends has one attach call and no detach call. A publication signalled subscribed a
  second time is attached a second time, and one signalled unsubscribed a second time
  is detached a second time. And a join whose setup throws after it has attached the
  preview, for want of a container of the dominant speaker or because the markup and
  the selector read the local identity differently, registers no teardown: the preview
  has one attach call and no detach call, whatever trigger follows.
\<close>

theorem attach_detach_pairing_counterexample:
  "feasible [Subscribed 1 alice_video, JoinRoom (ConnectResolved 0 with_alice),
             RoomDisconnected 0] (initial desktop)
   \<and> once_disconnected left_subscribed = []
   \<and> count_list (calls left_subscribed) (Attach alice_video) = 1
   \<and> count_list (calls left_subscribed) (Detach alice_video) = 0
   \<and> count_list (calls subscribed_twice) (Attach alice_video) = 2
   \<and> count_list (calls subscribed_twice) (Detach alice_video) = 0
   \<and> count_list (calls unsubscribed_twice) (Attach alice_video) = 1
   \<and> count_list (calls unsubscribed_twice) (Detach alice_video) = 2
   \<and> feasible [JoinRoom (ConnectResolved 0 alice_speaks), LeaveClick, RoomDisconnected 0]
        (initial desktop)
   \<and> raised (joinRoom (ConnectResolved 0 alice_speaks) (initial desktop))
   \<and> count_list (calls failed_join) (Attach camera) = 1
   \<and> count_list (calls failed_join) (Detach camera) = 0
   \<and> raised (joinRoom (ConnectResolved 0 amp_alone) (initial desktop))
   \<and> count_list (calls (run [JoinRoom (ConnectResolved 0 amp_alone), RoomDisconnected 0]
                           (initial desktop))) (Attach camera) = 1
   \<and> count_list (calls (run [JoinRoom (ConnectResolved 0 amp_alone), RoomDisconnected 0]
                           (initial desktop))) (Detach camera) = 0"
  by code_simp

end
